theory Spec2Isabelle
  imports Main "HOL-Library.Word" "HOL-Library.Signed_Division"
begin

unbundle bit_operations_syntax

section \<open>Common definitions\<close>

text \<open>
  The library is SPEAD-64: \<open>item_pointer_t\<close> is \<open>std::uint64_t\<close>, \<open>s_item_pointer_t\<close> is
  \<open>std::int64_t\<close>, \<open>std::size_t\<close> is 64 bits wide and \<open>int\<close> is 32 bits wide.  Signed
  quantities that the code only compares are modelled as \<open>int\<close>; where the code mixes
  \<open>int\<close> with \<open>std::size_t\<close> the conversions are written out on words.
\<close>

type_synonym byte = "8 word"
type_synonym item_pointer_t = "64 word"
type_synonym size_t = "64 word"
type_synonym bug_compat_mask = "32 word"

datatype error = Invalid_argument | Assertion_failed | Undefined_behaviour

text \<open>\<open>sizeof(item_pointer_t)\<close>, in bytes.\<close>

definition sizeof_item_pointer_t :: nat where
  "sizeof_item_pointer_t = 8"

text \<open>The usual arithmetic conversions between \<open>int\<close> and \<open>std::size_t\<close>.\<close>

definition size_t_of_int :: "int \<Rightarrow> size_t" where
  "size_t_of_int i = word_of_int i"

definition int_of_size_t :: "size_t \<Rightarrow> int" where
  "int_of_size_t w = sint (ucast w :: 32 word)"

text \<open>
  The constants and the \<open>pointer_encoder\<close> of \<open>common_defines.h\<close> and \<open>send_utils.h\<close>
  are used by \<open>send_heap.cpp\<close> but declared elsewhere; they are parameters of the model.
  \<open>encode_immediate\<close> and \<open>encode_address\<close> take the encoder's \<open>heap_address_bits\<close> first.
\<close>

record externs =
  BUG_COMPAT_DESCRIPTOR_WIDTHS :: bug_compat_mask
  BUG_COMPAT_SHAPE_BIT_1 :: bug_compat_mask
  HEAP_CNT_ID :: int
  HEAP_LENGTH_ID :: int
  PAYLOAD_OFFSET_ID :: int
  PAYLOAD_LENGTH_ID :: int
  DESCRIPTOR_ID :: int
  DESCRIPTOR_ID_ID :: int
  DESCRIPTOR_NAME_ID :: int
  DESCRIPTOR_DESCRIPTION_ID :: int
  DESCRIPTOR_FORMAT_ID :: int
  DESCRIPTOR_SHAPE_ID :: int
  DESCRIPTOR_DTYPE_ID :: int
  encode_immediate :: "int \<Rightarrow> int \<Rightarrow> int \<Rightarrow> item_pointer_t"
  encode_address :: "int \<Rightarrow> int \<Rightarrow> int \<Rightarrow> item_pointer_t"

section \<open>Send side: \<open>send_heap.cpp\<close>\<close>

record descriptor =
  id' :: int
  name :: string
  description :: string
  format :: "(char \<times> int) list"
  shape :: "int list"
  numpy_header :: string

text \<open>\<open>htobe<std::uint64_t>\<close> followed by a byte-wise read: the eight bytes, most significant first.\<close>

definition htobe :: "64 word \<Rightarrow> byte list" where
  "htobe v = map (\<lambda>i. ucast (drop_bit (8 * i) v)) (rev [0..<8])"

text \<open>
  \<open>store_bytes_be\<close>: the two assertions, then the last \<open>len\<close> bytes of the big-endian
  representation.  \<open>store_bytes_be_raw\<close> is the body without the assertions (a build with
  \<open>NDEBUG\<close>), for \<open>0 \<le> len \<le> 8\<close>.
\<close>

definition store_bytes_be_raw :: "int \<Rightarrow> item_pointer_t \<Rightarrow> byte list" where
  "store_bytes_be_raw len v = drop (sizeof_item_pointer_t - nat len) (htobe v)"

definition store_bytes_be :: "int \<Rightarrow> item_pointer_t \<Rightarrow> error + byte list" where
  "store_bytes_be len v =
     (if \<not> (0 \<le> len \<and> len \<le> int sizeof_item_pointer_t) then Inl Assertion_failed
      else if \<not> (len = int sizeof_item_pointer_t \<or> v < push_bit (8 * nat len) 1)
      then Inl Assertion_failed
      else Inr (store_bytes_be_raw len v))"

definition field_size :: "externs \<Rightarrow> bug_compat_mask \<Rightarrow> int \<Rightarrow> int" where
  "field_size K bug_compat heap_address_bits =
     (if bug_compat AND BUG_COMPAT_DESCRIPTOR_WIDTHS K \<noteq> 0 then 4
      else int_of_size_t (of_nat sizeof_item_pointer_t + 1
                            - size_t_of_int (heap_address_bits sdiv 8)))"

definition shape_size :: "externs \<Rightarrow> bug_compat_mask \<Rightarrow> int \<Rightarrow> int" where
  "shape_size K bug_compat heap_address_bits =
     (if bug_compat AND BUG_COMPAT_DESCRIPTOR_WIDTHS K \<noteq> 0 then 8
      else 1 + heap_address_bits sdiv 8)"

text \<open>
  The right operand of the range check on the id,
  \<open>s_item_pointer_t(1) << (sizeof(item_pointer_t) - 1 - heap_address_bits)\<close>.
  The shift count is a \<open>std::size_t\<close>.  The C++ standard leaves a shift by 64 or more
  undefined; the shift instruction of x86-64 takes the count modulo 64, and that is what
  the compiled code does.  The result is read as a signed 64-bit number.
\<close>

definition id_shift_count :: "int \<Rightarrow> size_t" where
  "id_shift_count heap_address_bits =
     of_nat sizeof_item_pointer_t - 1 - size_t_of_int heap_address_bits"

definition id_limit :: "int \<Rightarrow> int" where
  "id_limit heap_address_bits =
     sint (push_bit (unat (id_shift_count heap_address_bits) mod 64) (1 :: 64 word))"

text \<open>The check of lines 53-54.\<close>

definition check_id :: "descriptor \<Rightarrow> int \<Rightarrow> error option" where
  "check_id d heap_address_bits =
     (if id' d \<le> 0 \<or> id' d \<ge> id_limit heap_address_bits then Some Invalid_argument
      else None)"

text \<open>One iteration of the loop over \<open>d.format\<close>, and the loop.\<close>

definition encode_field :: "int \<Rightarrow> char \<times> int \<Rightarrow> error + byte list" where
  "encode_field fsize field =
     (case store_bytes_be (fsize - 1) (word_of_int (snd field)) of
        Inl e \<Rightarrow> Inl e
      | Inr bs \<Rightarrow> Inr (of_char (fst field) # bs))"

fun encode_format :: "int \<Rightarrow> (char \<times> int) list \<Rightarrow> error + byte list" where
  "encode_format fsize [] = Inr []"
| "encode_format fsize (field # more_fields) =
     (case encode_field fsize field of
        Inl e \<Rightarrow> Inl e
      | Inr bs \<Rightarrow>
          (case encode_format fsize more_fields of
             Inl e \<Rightarrow> Inl e
           | Inr rest \<Rightarrow> Inr (bs @ rest)))"

text \<open>One iteration of the loop over \<open>d.shape\<close>, and the loop.\<close>

definition variable_tag :: "externs \<Rightarrow> bug_compat_mask \<Rightarrow> byte" where
  "variable_tag K bug_compat = (if bug_compat AND BUG_COMPAT_SHAPE_BIT_1 K \<noteq> 0 then 2 else 1)"

definition encode_dim :: "externs \<Rightarrow> bug_compat_mask \<Rightarrow> int \<Rightarrow> int \<Rightarrow> error + byte list" where
  "encode_dim K bug_compat ssize dim =
     (case store_bytes_be (ssize - 1) (word_of_int (if dim < 0 then 0 else dim)) of
        Inl e \<Rightarrow> Inl e
      | Inr bs \<Rightarrow> Inr ((if dim < 0 then variable_tag K bug_compat else 0) # bs))"

fun encode_shape :: "externs \<Rightarrow> bug_compat_mask \<Rightarrow> int \<Rightarrow> int list \<Rightarrow> error + byte list" where
  "encode_shape K bug_compat ssize [] = Inr []"
| "encode_shape K bug_compat ssize (dim # dims) =
     (case encode_dim K bug_compat ssize dim of
        Inl e \<Rightarrow> Inl e
      | Inr bs \<Rightarrow>
          (case encode_shape K bug_compat ssize dims of
             Inl e \<Rightarrow> Inl e
           | Inr rest \<Rightarrow> Inr (bs @ rest)))"

text \<open>The packet header word and the table of item pointers (lines 62-100).\<close>

definition n_items :: "descriptor \<Rightarrow> int" where
  "n_items d = 9 + (if numpy_header d \<noteq> [] then 1 else 0)"

definition payload_size :: "externs \<Rightarrow> bug_compat_mask \<Rightarrow> int \<Rightarrow> descriptor \<Rightarrow> int" where
  "payload_size K bug_compat heap_address_bits d =
     int (length (name d)) + int (length (description d))
     + int (length (format d)) * field_size K bug_compat heap_address_bits
     + int (length (shape d)) * shape_size K bug_compat heap_address_bits
     + int (length (numpy_header d))"

definition header_word :: "int \<Rightarrow> descriptor \<Rightarrow> 64 word" where
  "header_word heap_address_bits d =
     push_bit 48 (0x5304 :: 64 word)
     OR push_bit 40 (word_of_int (8 - heap_address_bits sdiv 8))
     OR push_bit 32 (word_of_int (heap_address_bits sdiv 8))
     OR word_of_int (n_items d)"

definition item_pointers :: "externs \<Rightarrow> bug_compat_mask \<Rightarrow> int \<Rightarrow> descriptor \<Rightarrow> item_pointer_t list" where
  "item_pointers K bug_compat heap_address_bits d =
     (let imm = encode_immediate K heap_address_bits;
          addr = encode_address K heap_address_bits;
          psize = payload_size K bug_compat heap_address_bits d;
          off_name = 0;
          off_description = off_name + int (length (name d));
          off_format = off_description + int (length (description d));
          off_shape = off_format + int (length (format d)) * field_size K bug_compat heap_address_bits;
          off_dtype = off_shape + int (length (shape d)) * shape_size K bug_compat heap_address_bits
      in [imm (HEAP_CNT_ID K) 1,
          imm (HEAP_LENGTH_ID K) psize,
          imm (PAYLOAD_OFFSET_ID K) 0,
          imm (PAYLOAD_LENGTH_ID K) psize,
          imm (DESCRIPTOR_ID_ID K) (id' d),
          addr (DESCRIPTOR_NAME_ID K) off_name,
          addr (DESCRIPTOR_DESCRIPTION_ID K) off_description,
          addr (DESCRIPTOR_FORMAT_ID K) off_format,
          addr (DESCRIPTOR_SHAPE_ID K) off_shape]
         @ (if numpy_header d \<noteq> [] then [addr (DESCRIPTOR_DTYPE_ID K) off_dtype] else []))"

text \<open>\<open>encode_descriptor\<close>: the check on the id, then the blob.\<close>

definition encode_descriptor :: "externs \<Rightarrow> descriptor \<Rightarrow> int \<Rightarrow> bug_compat_mask \<Rightarrow> error + byte list" where
  "encode_descriptor K d heap_address_bits bug_compat =
     (case check_id d heap_address_bits of
        Some e \<Rightarrow> Inl e
      | None \<Rightarrow>
          (case encode_format (field_size K bug_compat heap_address_bits) (format d) of
             Inl e \<Rightarrow> Inl e
           | Inr fmt \<Rightarrow>
               (case encode_shape K bug_compat (shape_size K bug_compat heap_address_bits) (shape d) of
                  Inl e \<Rightarrow> Inl e
                | Inr shp \<Rightarrow>
                    Inr (htobe (header_word heap_address_bits d)
                         @ concat (map htobe (item_pointers K bug_compat heap_address_bits d))
                         @ map of_char (name d)
                         @ map of_char (description d)
                         @ fmt @ shp
                         @ map of_char (numpy_header d)))))"

text \<open>\<open>send::heap\<close>: the constructor and \<open>add_descriptor\<close>.\<close>

record item =
  item_id :: int
  item_data :: "byte list"
  is_inline :: bool

record send_heap =
  cnt :: int
  heap_address_bits :: int
  bug_compat :: bug_compat_mask
  items :: "item list"
  storage :: "byte list list"

definition send_heap_new :: "int \<Rightarrow> int \<Rightarrow> bug_compat_mask \<Rightarrow> error + send_heap" where
  "send_heap_new c hab bc =
     (if hab \<le> 0 \<or> hab \<ge> 8 * int sizeof_item_pointer_t \<or> hab smod 8 \<noteq> 0
      then Inl Invalid_argument
      else Inr \<lparr>cnt = c, heap_address_bits = hab, bug_compat = bc, items = [], storage = []\<rparr>)"

definition add_descriptor :: "externs \<Rightarrow> send_heap \<Rightarrow> descriptor \<Rightarrow> error + send_heap" where
  "add_descriptor K h d =
     (case encode_descriptor K d (heap_address_bits h) (bug_compat h) of
        Inl e \<Rightarrow> Inl e
      | Inr blob \<Rightarrow>
          Inr (h\<lparr>items := items h @ [\<lparr>item_id = DESCRIPTOR_ID K, item_data = blob, is_inline = False\<rparr>],
                 storage := storage h @ [blob]\<rparr>))"

text \<open>The unsigned number that a sequence of bytes holds in big-endian order.\<close>

fun be_value :: "byte list \<Rightarrow> nat" where
  "be_value [] = 0"
| "be_value (b # bs) = unat b * 256 ^ length bs + be_value bs"

text \<open>
  The legal item ids of a flavour in the words of the specification,
  \<open>0 < id < 2^(pointer_width - 1 - heap_address_bits)\<close>, for the pointer width of 64 bits.
\<close>

definition legal_id :: "int \<Rightarrow> int \<Rightarrow> bool" where
  "legal_id hab i = (0 < i \<and> i < 2 ^ nat (64 - 1 - hab))"

text \<open>
  The descriptor of scenario 6 of the specification (name \<open>x\<close>, no description, one format
  field \<open>('u', 32)\<close>, no numpy header), with a given id and shape.
\<close>

definition example_descriptor :: "int \<Rightarrow> int list \<Rightarrow> descriptor" where
  "example_descriptor i dims =
     \<lparr>id' = i, name = ''x'', description = [], format = [(CHR ''u'', 32)], shape = dims,
      numpy_header = []\<rparr>"

section \<open>Receive side: \<open>recv_heap.h\<close>, \<open>recv_stream.h\<close> and \<open>recv_stream.cpp\<close>\<close>

text \<open>
  Modelled from the spec: \<open>recv_packet.h\<close> is not among the sources.  The decoded form of a
  packet header: heap count, heap length (\<open>-1\<close> when unknown), payload offset and length, the
  heap address bits of the flavour, the item pointers that are not one of the four standard
  ones, and the payload bytes.  \<open>stream_base\<close> reads the field \<open>heap_cnt\<close> only.
\<close>

record packet_header =
  heap_cnt :: int
  heap_length :: int
  payload_offset :: int
  payload_length :: int
  heap_address_bits :: int
  pointers :: "64 word list"
  payload :: "byte list"

text \<open>
  A \<open>std::shared_ptr<mempool>\<close>: \<open>None\<close> is the null pointer, \<open>Some a\<close> the pool at
  address \<open>a\<close>.
\<close>

type_synonym mempool_ptr = "nat option"

text \<open>
  \<open>recv::heap\<close>, with the fields and the initial values of \<open>recv_heap.h\<close>.  The payload
  buffer is uninitialised memory: \<open>None\<close> is a byte that has not been written.
\<close>

record heap =
  heap_cnt :: int
  heap_length :: int
  received_length :: int
  end_of_stream :: bool
  min_length :: int
  heap_address_bits :: int
  bug_compat :: bug_compat_mask
  payload :: "byte option list"
  payload_reserved :: nat
  pointers :: "64 word list"
  packet_offsets :: "int set"
  pool :: mempool_ptr

definition cnt :: "heap \<Rightarrow> int" where
  "cnt h = heap_cnt h"

text \<open>
  The member functions of \<open>recv::heap\<close> that \<open>stream_base\<close> calls are declared in
  \<open>recv_heap.h\<close> and defined elsewhere; they are parameters of the model.
  \<open>heap_add_packet\<close> returns the result of \<open>heap::add_packet\<close> and the heap as the call
  leaves it.
\<close>

record heap_ops =
  heap_new :: "int \<Rightarrow> bug_compat_mask \<Rightarrow> heap"
  heap_set_mempool :: "heap \<Rightarrow> mempool_ptr \<Rightarrow> heap"
  heap_add_packet :: "heap \<Rightarrow> packet_header \<Rightarrow> bool \<times> heap"
  is_complete :: "heap \<Rightarrow> bool"
  is_end_of_stream :: "heap \<Rightarrow> bool"

text \<open>
  \<open>stream_base\<close>.  \<open>heap_ready\<close> is a virtual callback that does nothing in the base
  class; the field \<open>ready\<close> records the heaps passed to it, oldest first.
\<close>

record stream_base =
  max_heaps :: nat
  heaps :: "heap list"
  stopped :: bool
  bug_compat :: bug_compat_mask
  pool :: mempool_ptr
  ready :: "heap list"

definition stream_base_new :: "bug_compat_mask \<Rightarrow> nat \<Rightarrow> stream_base" where
  "stream_base_new bc n =
     \<lparr>max_heaps = n, heaps = [], stopped = False, bug_compat = bc, pool = None, ready = []\<rparr>"

definition set_max_heaps :: "stream_base \<Rightarrow> nat \<Rightarrow> stream_base" where
  "set_max_heaps s n = s\<lparr>max_heaps := n\<rparr>"

definition set_mempool :: "stream_base \<Rightarrow> mempool_ptr \<Rightarrow> stream_base" where
  "set_mempool s p = s\<lparr>pool := p\<rparr>"

definition is_stopped :: "stream_base \<Rightarrow> bool" where
  "is_stopped s = stopped s"

definition heap_ready :: "stream_base \<Rightarrow> heap \<Rightarrow> stream_base" where
  "heap_ready s h = s\<lparr>ready := ready s @ [h]\<rparr>"

definition flush :: "stream_base \<Rightarrow> stream_base" where
  "flush s = (foldl heap_ready s (heaps s))\<lparr>heaps := []\<rparr>"

definition stop :: "stream_base \<Rightarrow> stream_base" where
  "stop s = flush (s\<lparr>stopped := True\<rparr>)"

text \<open>
  The loop of \<open>add_packet\<close> that looks for a matching heap (lines 36-60).  \<open>i\<close> is the
  position of the iterator \<open>it\<close>; the result is the position of the matching heap, if
  there is one, and \<open>insert_before\<close>.
\<close>

fun find_heap :: "heap list \<Rightarrow> int \<Rightarrow> nat \<Rightarrow> nat \<Rightarrow> nat option \<times> nat" where
  "find_heap [] c i insert_before = (None, insert_before)"
| "find_heap (h # hs) c i insert_before =
     (if cnt h = c then (Some i, insert_before)
      else if cnt h < c then find_heap hs c (Suc i) (Suc i)
      else find_heap hs c (Suc i) insert_before)"

text \<open>Lines 65-66: the heap created for a packet that matches no live heap.\<close>

definition new_heap :: "heap_ops \<Rightarrow> stream_base \<Rightarrow> packet_header \<Rightarrow> heap" where
  "new_heap H s packet =
     heap_set_mempool H (heap_new H (packet_header.heap_cnt packet) (stream_base.bug_compat s))
       (stream_base.pool s)"

text \<open>\<open>heaps.insert(insert_before, h)\<close> on the deque.\<close>

definition insert_heap :: "heap list \<Rightarrow> nat \<Rightarrow> heap \<Rightarrow> heap list" where
  "insert_heap hs insert_before h = take insert_before hs @ [h] @ drop insert_before hs"

text \<open>
  Lines 36-86 of \<open>add_packet\<close>: the result is \<open>(result, end_of_stream, stream)\<close>.  A heap
  found in the collection is updated in place by \<open>heap::add_packet\<close>, whatever it returns.
  The deque is not empty after the insertion, so \<open>heaps[0]\<close> and \<open>pop_front\<close> are
  \<open>hd\<close> and \<open>tl\<close>.
\<close>

definition dispatch :: "heap_ops \<Rightarrow> stream_base \<Rightarrow> packet_header \<Rightarrow> bool \<times> bool \<times> stream_base" where
  "dispatch H s packet =
     (case find_heap (heaps s) (packet_header.heap_cnt packet) 0 0 of
        (Some i, insert_before) \<Rightarrow>
          (case heap_add_packet H (heaps s ! i) packet of
             (True, h) \<Rightarrow>
               (if is_complete H h
                then (True, is_end_of_stream H h,
                      (heap_ready s h)\<lparr>heaps := take i (heaps s) @ drop (Suc i) (heaps s)\<rparr>)
                else (True, is_end_of_stream H h, s\<lparr>heaps := (heaps s)[i := h]\<rparr>))
           | (False, h) \<Rightarrow> (False, False, s\<lparr>heaps := (heaps s)[i := h]\<rparr>))
      | (None, insert_before) \<Rightarrow>
          (case heap_add_packet H (new_heap H s packet) packet of
             (True, h) \<Rightarrow>
               (if is_complete H h
                then (True, is_end_of_stream H h, heap_ready s h)
                else if length (insert_heap (heaps s) insert_before h) > max_heaps s
                     then (True, is_end_of_stream H h,
                           (heap_ready s (hd (insert_heap (heaps s) insert_before h)))
                             \<lparr>heaps := tl (insert_heap (heaps s) insert_before h)\<rparr>)
                     else (True, is_end_of_stream H h,
                           s\<lparr>heaps := insert_heap (heaps s) insert_before h\<rparr>))
           | (False, h) \<Rightarrow> (False, False, s)))"

definition add_packet :: "heap_ops \<Rightarrow> stream_base \<Rightarrow> packet_header \<Rightarrow> error + bool \<times> stream_base" where
  "add_packet H s packet =
     (if stopped s then Inl Assertion_failed
      else case dispatch H s packet of
             (result, eos, s') \<Rightarrow> Inr (result, if eos then stop s' else s'))"

text \<open>
  \<open>mem_to_stream\<close>.  \<open>decode_packet\<close> is defined elsewhere and is a parameter: it returns
  the size of the packet at the front of the buffer, 0 for a failure, and the header.  \<open>bs\<close>
  holds the \<open>length\<close> bytes at \<open>ptr\<close>, and \<open>ptr\<close> counts from the start of the buffer.  A size
  beyond the end of the buffer would make \<open>length -= size\<close> wrap around.
\<close>

function mem_to_stream_loop ::
  "heap_ops \<Rightarrow> (byte list \<Rightarrow> nat \<times> packet_header) \<Rightarrow> stream_base \<Rightarrow> nat \<Rightarrow> byte list
     \<Rightarrow> error + nat \<times> stream_base" where
  "mem_to_stream_loop H decode_packet s ptr bs =
     (if length bs > 0 \<and> \<not> is_stopped s
      then (if fst (decode_packet bs) > 0
            then (if fst (decode_packet bs) > length bs then Inl Undefined_behaviour
                  else case add_packet H s (snd (decode_packet bs)) of
                         Inl e \<Rightarrow> Inl e
                       | Inr (result, s') \<Rightarrow>
                           mem_to_stream_loop H decode_packet s'
                             (ptr + fst (decode_packet bs)) (drop (fst (decode_packet bs)) bs))
            else Inr (ptr, s))
      else Inr (ptr, s))"
  by pat_completeness auto
termination
  by (relation "measure (\<lambda>(H, decode_packet, s, ptr, bs). length bs)") auto

declare mem_to_stream_loop.simps [simp del]

definition mem_to_stream ::
  "heap_ops \<Rightarrow> (byte list \<Rightarrow> nat \<times> packet_header) \<Rightarrow> stream_base \<Rightarrow> byte list
     \<Rightarrow> error + nat \<times> stream_base" where
  "mem_to_stream H decode_packet s bs = mem_to_stream_loop H decode_packet s 0 bs"

text \<open>Sequences of operations on a stream; a failed assertion ends the run.\<close>

datatype operation =
  Add_packet packet_header
  | Set_max_heaps nat
  | Set_mempool mempool_ptr
  | Flush
  | Stop

fun step :: "heap_ops \<Rightarrow> stream_base \<Rightarrow> operation \<Rightarrow> error + stream_base" where
  "step H s (Add_packet p) =
     (case add_packet H s p of Inl e \<Rightarrow> Inl e | Inr (result, s') \<Rightarrow> Inr s')"
| "step H s (Set_max_heaps n) = Inr (set_max_heaps s n)"
| "step H s (Set_mempool p) = Inr (set_mempool s p)"
| "step H s Flush = Inr (flush s)"
| "step H s Stop = Inr (stop s)"

fun run :: "heap_ops \<Rightarrow> stream_base \<Rightarrow> operation list \<Rightarrow> error + stream_base" where
  "run H s [] = Inr s"
| "run H s (x # xs) = (case step H s x of Inl e \<Rightarrow> Inl e | Inr s' \<Rightarrow> run H s' xs)"

section \<open>The heap and the packet decoder of the specification\<close>

text \<open>
  Modelled from the spec: \<open>recv_heap.cpp\<close> and \<open>recv_packet.cpp\<close> are not among the
  sources.  The definitions of this section follow sections 3, 4.1, 4.4 and 6 of the
  specification; they give a concrete \<open>heap_ops\<close> and a concrete \<open>decode_packet\<close> on which
  the model of \<open>stream_base\<close> is evaluated.  The consistency checks on item pointers that
  section 4.4 mentions without detail are left out, and the value of the end-of-stream marker
  of \<open>STREAM_CTRL\<close>, which the specification does not fix, is the argument \<open>ctrl_stop\<close>.
\<close>

text \<open>
  Modelled from the spec: the pointer decoder (section 4.2) is not among the sources.  An
  item pointer is \<open>[immediate:1][id:63 - heap_address_bits][value:heap_address_bits]\<close>.
\<close>

definition pointer_immediate :: "64 word \<Rightarrow> bool" where
  "pointer_immediate p = bit p 63"

definition pointer_id :: "int \<Rightarrow> 64 word \<Rightarrow> int" where
  "pointer_id hab p = uint (drop_bit (nat hab) (take_bit 63 p))"

definition pointer_value :: "int \<Rightarrow> 64 word \<Rightarrow> int" where
  "pointer_value hab p = uint (take_bit (nat hab) p)"

text \<open>Modelled from the spec: the reserved item id \<open>STREAM_CTRL\<close> of section 6.\<close>

definition STREAM_CTRL_ID :: int where
  "STREAM_CTRL_ID = 0x06"

text \<open>
  Modelled from the spec: the constructor and \<open>set_mempool\<close> of \<open>recv::heap\<close>, with the
  initial values of \<open>recv_heap.h\<close>.
\<close>

definition spec_heap_new :: "int \<Rightarrow> bug_compat_mask \<Rightarrow> heap" where
  "spec_heap_new c bc =
     \<lparr>heap.heap_cnt = c, heap.heap_length = -1, received_length = 0, end_of_stream = False,
      min_length = 0, heap.heap_address_bits = -1, heap.bug_compat = bc, heap.payload = [],
      payload_reserved = 0, heap.pointers = [], packet_offsets = {}, heap.pool = None\<rparr>"

definition spec_heap_set_mempool :: "heap \<Rightarrow> mempool_ptr \<Rightarrow> heap" where
  "spec_heap_set_mempool h p = h\<lparr>heap.pool := p\<rparr>"

text \<open>
  Modelled from the spec: \<open>heap::payload_reserve\<close> and the copy of a packet's payload
  (section 4.4).  Reserving payload memory is exact when the heap length is known, otherwise by doubling;
  memory that is added is not initialised.
\<close>

definition payload_reserve :: "nat \<Rightarrow> bool \<Rightarrow> heap \<Rightarrow> heap" where
  "payload_reserve wanted exact h =
     (if wanted > payload_reserved h
      then (let new_size = (if \<not> exact \<and> wanted < 2 * payload_reserved h
                            then 2 * payload_reserved h else wanted)
            in h\<lparr>heap.payload := heap.payload h @ replicate (new_size - payload_reserved h) None,
                 payload_reserved := new_size\<rparr>)
      else h)"

definition payload_write :: "nat \<Rightarrow> byte list \<Rightarrow> heap \<Rightarrow> heap" where
  "payload_write off bs h =
     h\<lparr>heap.payload := take off (heap.payload h) @ map Some bs
                         @ drop (off + length bs) (heap.payload h)\<rparr>"

text \<open>
  Modelled from the spec: \<open>heap::add_packet\<close>, \<open>is_complete\<close> and \<open>is_end_of_stream\<close>
  (section 4.4), with the rejection reasons 1 to 4 in the order of the specification.
\<close>

definition is_stream_stop :: "int \<Rightarrow> int \<Rightarrow> 64 word \<Rightarrow> bool" where
  "is_stream_stop ctrl_stop hab p =
     (pointer_immediate p \<and> pointer_id hab p = STREAM_CTRL_ID \<and> pointer_value hab p = ctrl_stop)"

definition max_address :: "int \<Rightarrow> 64 word list \<Rightarrow> int" where
  "max_address hab ps =
     foldl max 0 (map (pointer_value hab) (filter (\<lambda>p. \<not> pointer_immediate p) ps))"

definition spec_heap_add_packet :: "int \<Rightarrow> heap \<Rightarrow> packet_header \<Rightarrow> bool \<times> heap" where
  "spec_heap_add_packet ctrl_stop h p =
     (let known = (if heap.heap_length h \<ge> 0 then heap.heap_length h else packet_header.heap_length p);
          extent = payload_offset p + payload_length p
      in if packet_header.heap_cnt p \<noteq> heap.heap_cnt h then (False, h)
         else if heap.heap_address_bits h \<noteq> -1
                 \<and> heap.heap_address_bits h \<noteq> packet_header.heap_address_bits p then (False, h)
         else if heap.heap_length h \<ge> 0 \<and> packet_header.heap_length p \<ge> 0
                 \<and> packet_header.heap_length p \<noteq> heap.heap_length h then (False, h)
         else if known \<ge> 0 \<and> extent > known then (False, h)
         else if payload_offset p \<in> packet_offsets h then (False, h)
         else (True,
               (payload_write (nat (payload_offset p)) (packet_header.payload p)
                  (payload_reserve (nat (if known \<ge> 0 then known else extent)) (known \<ge> 0) h))
                 \<lparr>heap.heap_length := known,
                  heap.heap_address_bits := packet_header.heap_address_bits p,
                  packet_offsets := insert (payload_offset p) (packet_offsets h),
                  heap.pointers := heap.pointers h @ packet_header.pointers p,
                  received_length := received_length h + payload_length p,
                  min_length := max (min_length h)
                                  (max extent (max_address (packet_header.heap_address_bits p)
                                                 (packet_header.pointers p))),
                  end_of_stream := (end_of_stream h
                                    \<or> list_ex (is_stream_stop ctrl_stop (packet_header.heap_address_bits p))
                                         (packet_header.pointers p))\<rparr>))"

definition spec_is_complete :: "heap \<Rightarrow> bool" where
  "spec_is_complete h = (heap.heap_length h \<ge> 0 \<and> received_length h = heap.heap_length h)"

definition spec_is_end_of_stream :: "heap \<Rightarrow> bool" where
  "spec_is_end_of_stream h = end_of_stream h"

definition spec_heap_ops :: "int \<Rightarrow> heap_ops" where
  "spec_heap_ops ctrl_stop =
     \<lparr>heap_new = spec_heap_new, heap_set_mempool = spec_heap_set_mempool,
      heap_add_packet = spec_heap_add_packet ctrl_stop,
      is_complete = spec_is_complete, is_end_of_stream = spec_is_end_of_stream\<rparr>"

text \<open>
  Modelled from the spec: \<open>decode_packet\<close> of \<open>recv_packet.cpp\<close>, which is not among the
  sources; the packet decoder of section 4.1.  A packet is an 8-byte header (the magic number
  \<open>0x5304\<close>, the tag \<open>8 - heap_address_bits / 8\<close>, \<open>heap_address_bits / 8\<close> and the number
  of item pointers), the item pointers and the payload, all big-endian.  The result is the
  number of bytes of the packet, 0 for a malformed one, and the decoded header.
\<close>

definition be_word :: "byte list \<Rightarrow> 64 word" where
  "be_word bs = word_of_nat (be_value bs)"

definition word_at :: "byte list \<Rightarrow> nat \<Rightarrow> 64 word" where
  "word_at bs i = be_word (take 8 (drop (8 * i) bs))"

definition pointer_words :: "byte list \<Rightarrow> nat \<Rightarrow> 64 word list" where
  "pointer_words bs n = map (\<lambda>i. word_at bs (Suc i)) [0..<n]"

definition no_packet :: packet_header where
  "no_packet =
     \<lparr>packet_header.heap_cnt = -1, packet_header.heap_length = -1, payload_offset = 0,
      payload_length = 0, packet_header.heap_address_bits = 0, packet_header.pointers = [],
      packet_header.payload = []\<rparr>"

definition standard_pointer :: "int \<Rightarrow> int \<Rightarrow> 64 word \<Rightarrow> bool" where
  "standard_pointer hab i p = (pointer_immediate p \<and> pointer_id hab p = i)"

definition standard_value :: "int \<Rightarrow> int \<Rightarrow> 64 word list \<Rightarrow> int" where
  "standard_value hab i ps =
     (case find (standard_pointer hab i) ps of None \<Rightarrow> -1 | Some p \<Rightarrow> pointer_value hab p)"

definition other_pointers :: "int \<Rightarrow> 64 word list \<Rightarrow> 64 word list" where
  "other_pointers hab ps =
     filter (\<lambda>p. \<not> (standard_pointer hab 0x01 p \<or> standard_pointer hab 0x02 p
                     \<or> standard_pointer hab 0x03 p \<or> standard_pointer hab 0x04 p)) ps"

definition spec_decode_packet :: "byte list \<Rightarrow> nat \<times> packet_header" where
  "spec_decode_packet bs =
     (let header = word_at bs 0;
          hab = 8 * uint (take_bit 8 (drop_bit 32 header));
          width_tag = uint (take_bit 8 (drop_bit 40 header));
          n = unat (take_bit 32 header);
          ps = pointer_words bs n;
          plen = standard_value hab 0x04 ps
      in if length bs < 8 \<or> drop_bit 48 header \<noteq> 0x5304
            \<or> \<not> (0 < hab \<and> hab < 64) \<or> width_tag \<noteq> 8 - hab div 8
            \<or> 8 + 8 * n > length bs
            \<or> standard_value hab 0x01 ps < 0 \<or> standard_value hab 0x03 ps < 0 \<or> plen < 0
            \<or> 8 + 8 * n + nat plen > length bs
         then (0, no_packet)
         else (8 + 8 * n + nat plen,
               \<lparr>packet_header.heap_cnt = standard_value hab 0x01 ps,
                packet_header.heap_length = standard_value hab 0x02 ps,
                payload_offset = standard_value hab 0x03 ps,
                payload_length = plen,
                packet_header.heap_address_bits = hab,
                packet_header.pointers = other_pointers hab ps,
                packet_header.payload = take (nat plen) (drop (8 + 8 * n) bs)\<rparr>))"

section \<open>Notions used to state the properties\<close>

text \<open>The heap counts of a collection are strictly ascending.\<close>

definition ascending :: "heap list \<Rightarrow> bool" where
  "ascending hs = sorted_wrt (<) (map cnt hs)"

text \<open>The heap that \<open>add_packet\<close> delegates a packet to: the matching live heap, or a new one.\<close>

definition target_heap :: "heap_ops \<Rightarrow> stream_base \<Rightarrow> packet_header \<Rightarrow> heap" where
  "target_heap H s packet =
     (case find_heap (heaps s) (packet_header.heap_cnt packet) 0 0 of
        (Some i, insert_before) \<Rightarrow> heaps s ! i
      | (None, insert_before) \<Rightarrow> new_heap H s packet)"

text \<open>
  What \<open>stream_base\<close> relies on in \<open>recv::heap\<close>.  The heap count is fixed by the
  constructor (\<open>recv_heap.h\<close>: ``Heap ID'') and no member function changes it; a packet
  that \<open>heap::add_packet\<close> rejects leaves the heap as it was (section 4.4 of the
  specification).
\<close>

definition heap_ops_keep_cnt :: "heap_ops \<Rightarrow> bool" where
  "heap_ops_keep_cnt H =
     ((\<forall>c bc. cnt (heap_new H c bc) = c)
      \<and> (\<forall>h p. cnt (heap_set_mempool H h p) = cnt h)
      \<and> (\<forall>h p. cnt (snd (heap_add_packet H h p)) = cnt h))"

definition heap_ops_reject_unchanged :: "heap_ops \<Rightarrow> bool" where
  "heap_ops_reject_unchanged H =
     (\<forall>h p. fst (heap_add_packet H h p) \<or> snd (heap_add_packet H h p) = h)"

text \<open>No \<open>Set_max_heaps\<close> of a sequence lowers the cap that is in force, starting from \<open>n\<close>.\<close>

fun never_lowered :: "nat \<Rightarrow> operation list \<Rightarrow> bool" where
  "never_lowered n [] = True"
| "never_lowered n (Set_max_heaps m # xs) = (n \<le> m \<and> never_lowered m xs)"
| "never_lowered n (x # xs) = never_lowered n xs"

text \<open>The number of live heaps and the cap after a sequence of operations.\<close>

definition live_and_cap :: "error + stream_base \<Rightarrow> (nat \<times> nat) option" where
  "live_and_cap r = (case r of Inl e \<Rightarrow> None | Inr s \<Rightarrow> Some (length (heaps s), max_heaps s))"

text \<open>
  The packets of a buffer: those that \<open>decode_packet\<close> finds from the front, up to the
  first failure (or a size beyond the end of the buffer), with their sizes.
\<close>

function packets_of :: "(byte list \<Rightarrow> nat \<times> packet_header) \<Rightarrow> byte list \<Rightarrow> (nat \<times> packet_header) list" where
  "packets_of decode_packet bs =
     (if bs = [] \<or> fst (decode_packet bs) = 0 \<or> fst (decode_packet bs) > length bs then []
      else decode_packet bs # packets_of decode_packet (drop (fst (decode_packet bs)) bs))"
  by pat_completeness auto
termination
  by (relation "measure (\<lambda>(decode_packet, bs). length bs)") auto

declare packets_of.simps [simp del]

text \<open>
  Passing a list of packets to \<open>add_packet\<close>, one after the other, each one whatever the
  result for the one before, until the stream is stopped; the result is the sum of the
  sizes of the packets passed, and the stream.
\<close>

fun feed :: "heap_ops \<Rightarrow> stream_base \<Rightarrow> (nat \<times> packet_header) list \<Rightarrow> nat \<times> stream_base" where
  "feed H s [] = (0, s)"
| "feed H s (x # xs) =
     (case add_packet H s (snd x) of
        Inl e \<Rightarrow> (0, s)
      | Inr (result, s') \<Rightarrow> (fst x + fst (feed H s' xs), snd (feed H s' xs)))"

text \<open>The offset of the first decode failure (or of the end of the buffer).\<close>

definition first_failure :: "(byte list \<Rightarrow> nat \<times> packet_header) \<Rightarrow> byte list \<Rightarrow> nat" where
  "first_failure decode_packet bs = sum_list (map fst (packets_of decode_packet bs))"

section \<open>Concrete packets, streams and buffers\<close>

text \<open>
  Packets of the flavour with 40 heap address bits: one byte of a two-byte heap at a given
  offset; the same with a \<open>STREAM_CTRL\<close> item pointer carrying the end-of-stream marker 2;
  and a packet whose payload lies beyond the heap length it declares.
\<close>

definition half_packet :: "int \<Rightarrow> int \<Rightarrow> packet_header" where
  "half_packet c off =
     \<lparr>packet_header.heap_cnt = c, packet_header.heap_length = 2, payload_offset = off,
      payload_length = 1, packet_header.heap_address_bits = 40, packet_header.pointers = [],
      packet_header.payload = [0]\<rparr>"

definition stop_packet :: "int \<Rightarrow> packet_header" where
  "stop_packet c =
     \<lparr>packet_header.heap_cnt = c, packet_header.heap_length = 2, payload_offset = 0,
      payload_length = 1, packet_header.heap_address_bits = 40,
      packet_header.pointers = [0x8000060000000002],
      packet_header.payload = [0]\<rparr>"

definition overflow_packet :: "int \<Rightarrow> packet_header" where
  "overflow_packet c =
     \<lparr>packet_header.heap_cnt = c, packet_header.heap_length = 2, payload_offset = 2,
      payload_length = 1, packet_header.heap_address_bits = 40, packet_header.pointers = [],
      packet_header.payload = [0]\<rparr>"

text \<open>The heap with count \<open>c\<close> after its first half, and a stream holding heaps 1 and 3.\<close>

definition partial_heap :: "int \<Rightarrow> heap" where
  "partial_heap c =
     snd (spec_heap_add_packet 2 (spec_heap_set_mempool (spec_heap_new c 0) None) (half_packet c 0))"

definition example_stream :: stream_base where
  "example_stream = (stream_base_new 0 2)\<lparr>heaps := [partial_heap 1, partial_heap 3]\<rparr>"

text \<open>
  Two packets as bytes.  The first has heap count 1, no payload and the end-of-stream
  marker; the second has heap count 2 and one byte of payload.  The buffer holds both,
  followed by one stray byte.
\<close>

definition stop_packet_bytes :: "byte list" where
  "stop_packet_bytes =
     concat (map htobe [0x5304030500000004, 0x8000010000000001, 0x8000030000000000,
                        0x8000040000000000, 0x8000060000000002])"

definition data_packet_bytes :: "byte list" where
  "data_packet_bytes =
     concat (map htobe [0x5304030500000003, 0x8000010000000002, 0x8000030000000000,
                        0x8000040000000001]) @ [0xAA]"

definition example_buffer :: "byte list" where
  "example_buffer = stop_packet_bytes @ data_packet_bytes @ [0]"

text \<open>The decoded form of the two packets.\<close>

definition stop_header :: packet_header where
  "stop_header =
     \<lparr>packet_header.heap_cnt = 1, packet_header.heap_length = -1, payload_offset = 0,
      payload_length = 0, packet_header.heap_address_bits = 40,
      packet_header.pointers = [0x8000060000000002], packet_header.payload = []\<rparr>"

definition data_header :: packet_header where
  "data_header =
     \<lparr>packet_header.heap_cnt = 2, packet_header.heap_length = -1, payload_offset = 0,
      payload_length = 1, packet_header.heap_address_bits = 40,
      packet_header.pointers = [], packet_header.payload = [0xAA]\<rparr>"

text \<open>
  What is observed of a stream after a run: the counts of the live heaps, the counts of the
  heaps passed to \<open>heap_ready\<close>, and the stopped flag.
\<close>

definition observe :: "error + stream_base \<Rightarrow> (int list \<times> int list \<times> bool) option" where
  "observe r =
     (case r of Inl e \<Rightarrow> None
      | Inr s \<Rightarrow> Some (map cnt (heaps s), map cnt (ready s), stopped s))"

text \<open>The offset that \<open>mem_to_stream\<close> returns, and what is observed of the stream.\<close>

definition returned :: "error + nat \<times> stream_base \<Rightarrow> (nat \<times> int list \<times> int list \<times> bool) option" where
  "returned r =
     (case r of Inl e \<Rightarrow> None
      | Inr (n, s) \<Rightarrow> Some (n, map cnt (heaps s), map cnt (ready s), stopped s))"

section \<open>Properties of the send side\<close>

text \<open>
  Claim C8.  The constructor of \<open>send::heap\<close> fails with invalid-argument exactly when
  \<open>heap_address_bits\<close> is not a positive multiple of 8 strictly below the pointer width in
  bits, and otherwise returns the heap with the given fields.
\<close>

theorem send_heap_new_valid_iff:
  "(send_heap_new c hab bc = Inl Invalid_argument) =
     (\<not> (0 < hab \<and> hab < 8 * int sizeof_item_pointer_t \<and> 8 dvd hab))
   \<and> (send_heap_new c hab bc =
        Inr \<lparr>send_heap.cnt = c, send_heap.heap_address_bits = hab, send_heap.bug_compat = bc,
             items = [], storage = []\<rparr>) =
     (0 < hab \<and> hab < 8 * int sizeof_item_pointer_t \<and> 8 dvd hab)"
proof -
  have "hab smod 8 = 0 \<longleftrightarrow> 8 dvd hab" if "0 < hab"
    using that by (simp add: signed_modulo_int_def dvd_eq_mod_eq_0 sgn_if)
  then show ?thesis
    by (auto simp: send_heap_new_def)
qed

lemma unat_byte_of: "unat (ucast (drop_bit k (v :: 64 word)) :: byte) = (unat v div 2 ^ k) mod 256"
  unfolding unsigned_ucast_eq unat_drop_bit_eq
  by (simp add: take_bit_eq_mod drop_bit_eq_div)

lemma be_value_low_bytes:
  "be_value (map (\<lambda>i. ucast (drop_bit (8 * i) (v :: 64 word))) (rev [0..<n])) = unat v mod 2 ^ (8 * n)"
proof (induction n)
  case 0 then show ?case by simp
next
  case (Suc n)
  have "unat v mod 2 ^ (8 * Suc n) = unat v mod (2 ^ (8 * n) * 256)"
    by (simp add: power_add mult.commute)
  also have "\<dots> = 2 ^ (8 * n) * (unat v div 2 ^ (8 * n) mod 256) + unat v mod 2 ^ (8 * n)"
    by (rule mod_mult2_eq)
  finally show ?case
    using Suc by (simp add: unat_byte_of power_mult)
qed

lemma drop_htobe:
  assumes "n \<le> 8"
  shows "drop (8 - n) (htobe v) = map (\<lambda>i. ucast (drop_bit (8 * i) v)) (rev [0..<n])"
proof -
  from assms have "[0..<8] = [0..<n] @ [n..<8]"
    by (metis le_add_diff_inverse upt_add_eq_append zero_le)
  then have "rev [0..<8] = rev [n..<8] @ rev [0..<n]"
    by simp
  then show ?thesis
    using assms unfolding htobe_def by (simp add: drop_map [symmetric])
qed

lemma store_bytes_be_raw_value:
  assumes "0 \<le> len" "len \<le> 8"
  shows "be_value (store_bytes_be_raw len v) = unat v mod 2 ^ (8 * nat len)"
  using assms by (simp add: store_bytes_be_raw_def sizeof_item_pointer_t_def drop_htobe be_value_low_bytes)

lemma store_bytes_be_raw_length:
  assumes "0 \<le> len" "len \<le> 8"
  shows "length (store_bytes_be_raw len v) = nat len"
  using assms by (simp add: store_bytes_be_raw_def sizeof_item_pointer_t_def drop_htobe)

lemma store_bytes_be_raw_zero:
  assumes "0 \<le> len" "len \<le> 8"
  shows "store_bytes_be_raw len 0 = replicate (nat len) 0"
  using assms by (simp add: store_bytes_be_raw_def sizeof_item_pointer_t_def drop_htobe map_replicate_const)

lemma valid_bits_cases:
  assumes "0 < hab" "hab < 8 * int sizeof_item_pointer_t" "8 dvd hab"
  shows "hab \<in> {8, 16, 24, 32, 40, 48, 56}"
proof -
  from assms(3) obtain k where k: "hab = 8 * k" by (auto simp: dvd_def)
  with assms(1,2) have "0 < k" "k < 8" by (simp_all add: sizeof_item_pointer_t_def)
  then have "k \<in> {1, 2, 3, 4, 5, 6, 7}" by auto
  with k show ?thesis by auto
qed

lemma field_size_flavour:
  assumes "0 < hab" "hab < 8 * int sizeof_item_pointer_t" "8 dvd hab"
  shows "field_size K bc hab =
     (if bc AND BUG_COMPAT_DESCRIPTOR_WIDTHS K \<noteq> 0 then 4
      else int sizeof_item_pointer_t + 1 - hab div 8)"
  using valid_bits_cases [OF assms]
  by (auto simp: field_size_def int_of_size_t_def size_t_of_int_def sizeof_item_pointer_t_def
        signed_divide_int_def)

lemma shape_size_flavour:
  assumes "0 < hab"
  shows "shape_size K bc hab =
     (if bc AND BUG_COMPAT_DESCRIPTOR_WIDTHS K \<noteq> 0 then 8 else 1 + hab div 8)"
  using assms by (simp add: shape_size_def signed_divide_int_def sgn_if)

lemma shape_size_range:
  assumes "0 < hab" "hab < 8 * int sizeof_item_pointer_t" "8 dvd hab"
  shows "1 \<le> shape_size K bc hab - 1" "shape_size K bc hab - 1 \<le> 7"
  using valid_bits_cases [OF assms] by (auto simp: shape_size_def signed_divide_int_def)

lemma uint_of_small_int:
  assumes "0 \<le> x" "x < 2 ^ 64"
  shows "uint (word_of_int x :: 64 word) = x"
  using assms by (simp add: uint_word_of_int_eq take_bit_int_eq_self)

lemma store_bytes_be_assert:
  assumes "0 \<le> len" "len < 8" "0 \<le> x" "x < 2 ^ 64"
  shows "store_bytes_be len (word_of_int x) =
           (if x < 2 ^ (8 * nat len) then Inr (store_bytes_be_raw len (word_of_int x))
            else Inl Assertion_failed)"
proof -
  have "8 * nat len < size (word_of_int x :: 64 word)"
    using assms by (simp add: word_size)
  then have "((word_of_int x :: 64 word) < 2 ^ (8 * nat len)) = (x < 2 ^ (8 * nat len))"
    using uint_of_small_int [OF assms(3,4)] by (simp only: word_2p_lem)
  then show ?thesis
    using assms by (simp add: store_bytes_be_def sizeof_item_pointer_t_def)
qed

lemma power_8_le:
  assumes "n \<le> 7"
  shows "(2::int) ^ (8 * n) < 2 ^ 64"
  using assms by (intro power_strict_increasing) simp_all


lemma id_limit_8: "id_limit 8 = - (2 ^ 63)"
proof -
  have "unat (- 1 :: 64 word) mod 64 = 63"
    by (simp add: unsigned_minus_1_eq_mask mask_eq_exp_minus_1)
  moreover have "sint (2 ^ 63 :: 64 word) = - (2 ^ 63)"
    by (simp add: sint_uint)
  ultimately show ?thesis
    by (simp add: id_limit_def id_shift_count_def size_t_of_int_def sizeof_item_pointer_t_def)
qed

lemma id_limit_values:
  "id_limit 16 = 2 ^ 55" "id_limit 24 = 2 ^ 47" "id_limit 32 = 2 ^ 39"
  "id_limit 40 = 2 ^ 31" "id_limit 48 = 2 ^ 23" "id_limit 56 = 2 ^ 15"
  by (simp_all add: id_limit_def id_shift_count_def size_t_of_int_def sizeof_item_pointer_t_def)

lemma check_id_flavour:
  assumes "0 < hab" "hab < 8 * int sizeof_item_pointer_t" "8 dvd hab"
  shows "check_id d hab =
           (if id' d \<le> 0 \<or> hab = 8 \<or> 2 ^ nat (71 - hab) \<le> id' d then Some Invalid_argument
            else None)"
  using valid_bits_cases [OF assms]
  by (auto simp: check_id_def id_limit_8 id_limit_values)

lemma field_size_range:
  assumes "0 < hab" "hab < 8 * int sizeof_item_pointer_t" "8 dvd hab"
  shows "1 \<le> field_size K bc hab - 1" "field_size K bc hab - 1 \<le> 7"
  using valid_bits_cases [OF assms]
  by (auto simp: field_size_def int_of_size_t_def size_t_of_int_def sizeof_item_pointer_t_def
        signed_divide_int_def)

text \<open>
  The sizes of the entries for a flavour, and the layout of one shape entry: the tag byte,
  then \<open>shape_size - 1\<close> bytes that are zero for a variable dimension and hold the dimension
  as a big-endian number when it is below \<open>2 ^ (8 * (shape_size - 1))\<close>.
\<close>

lemma shape_entry_layout:
  assumes "0 < hab" "hab < 8 * int sizeof_item_pointer_t" "8 dvd hab"
  shows "field_size K bc hab =
           (if bc AND BUG_COMPAT_DESCRIPTOR_WIDTHS K \<noteq> 0 then 4
            else int sizeof_item_pointer_t + 1 - hab div 8)
       \<and> shape_size K bc hab =
           (if bc AND BUG_COMPAT_DESCRIPTOR_WIDTHS K \<noteq> 0 then 8 else 1 + hab div 8)
       \<and> (dim < 2 ^ (8 * nat (shape_size K bc hab - 1)) \<longrightarrow>
            (\<exists>bs. encode_dim K bc (shape_size K bc hab) dim =
                    Inr ((if dim < 0 then (if bc AND BUG_COMPAT_SHAPE_BIT_1 K \<noteq> 0 then 2 else 1)
                          else 0) # bs)
                \<and> length bs = nat (shape_size K bc hab - 1)
                \<and> be_value bs = (if dim < 0 then 0 else nat dim)
                \<and> (dim < 0 \<longrightarrow> bs = replicate (nat (shape_size K bc hab - 1)) 0)))"
proof (intro conjI impI)
  show "field_size K bc hab =
          (if bc AND BUG_COMPAT_DESCRIPTOR_WIDTHS K \<noteq> 0 then 4
           else int sizeof_item_pointer_t + 1 - hab div 8)"
    by (rule field_size_flavour [OF assms])
  show "shape_size K bc hab =
          (if bc AND BUG_COMPAT_DESCRIPTOR_WIDTHS K \<noteq> 0 then 8 else 1 + hab div 8)"
    by (rule shape_size_flavour [OF assms(1)])
next
  define len where "len = shape_size K bc hab - 1"
  define x where "x = (if dim < 0 then 0 else dim)"
  define bs where "bs = store_bytes_be_raw len (word_of_int x)"
  assume fits: "dim < 2 ^ (8 * nat (shape_size K bc hab - 1))"
  have len: "1 \<le> len" "len \<le> 7"
    using shape_size_range [OF assms] by (simp_all add: len_def)
  then have "nat len \<le> 7" by simp
  from power_8_le [OF this] have top: "(2::int) ^ (8 * nat len) < 2 ^ 64" .
  have x: "0 \<le> x" "x < 2 ^ (8 * nat len)"
    using fits by (simp_all add: x_def len_def)
  with top have x64: "x < 2 ^ 64" by linarith
  have stored: "store_bytes_be len (word_of_int x) = Inr bs"
    using store_bytes_be_assert [of len x] len x x64 by (simp add: bs_def)
  have "unat (word_of_int x :: 64 word) = nat x"
    using uint_of_small_int [OF x(1) x64] by (simp add: unat_eq_nat_uint)
  moreover have "nat x < 2 ^ (8 * nat len)"
    using x by (simp add: nat_less_iff)
  ultimately have val: "be_value bs = nat x"
    using store_bytes_be_raw_value [of len "word_of_int x"] len by (simp add: bs_def)
  have length: "length bs = nat len"
    using store_bytes_be_raw_length [of len] len by (simp add: bs_def)
  have zero: "bs = replicate (nat len) 0" if "dim < 0"
    using that store_bytes_be_raw_zero [of len] len by (simp add: bs_def x_def)
  show "\<exists>bs. encode_dim K bc (shape_size K bc hab) dim =
               Inr ((if dim < 0 then (if bc AND BUG_COMPAT_SHAPE_BIT_1 K \<noteq> 0 then 2 else 1)
                     else 0) # bs)
           \<and> length bs = nat (shape_size K bc hab - 1)
           \<and> be_value bs = (if dim < 0 then 0 else nat dim)
           \<and> (dim < 0 \<longrightarrow> bs = replicate (nat (shape_size K bc hab - 1)) 0)"
  proof (intro exI conjI impI)
    show "encode_dim K bc (shape_size K bc hab) dim =
            Inr ((if dim < 0 then (if bc AND BUG_COMPAT_SHAPE_BIT_1 K \<noteq> 0 then 2 else 1)
                  else 0) # bs)"
      using stored by (simp add: encode_dim_def variable_tag_def len_def [symmetric] x_def [symmetric])
    show "length bs = nat (shape_size K bc hab - 1)"
      using length by (simp add: len_def)
    show "be_value bs = (if dim < 0 then 0 else nat dim)"
      using val by (simp add: x_def)
    show "bs = replicate (nat (shape_size K bc hab - 1)) 0" if "dim < 0"
      using zero [OF that] by (simp add: len_def)
  qed
qed


subsection \<open>The format and shape sections of the blob\<close>

lemma encode_dim_fits:
  assumes "0 \<le> ssize - 1" "ssize - 1 \<le> 7" "dim < 2 ^ (8 * nat (ssize - 1))"
  shows "encode_dim K bc ssize dim =
           Inr ((if dim < 0 then variable_tag K bc else 0)
                # store_bytes_be_raw (ssize - 1) (word_of_int (if dim < 0 then 0 else dim)))"
proof -
  define x where "x = (if dim < 0 then 0 else dim)"
  from assms(2) have "nat (ssize - 1) \<le> 7" by simp
  from power_8_le [OF this] have top: "(2::int) ^ (8 * nat (ssize - 1)) < 2 ^ 64" .
  have x: "0 \<le> x" "x < 2 ^ (8 * nat (ssize - 1))"
    using assms(3) by (simp_all add: x_def)
  with top have "x < 2 ^ 64" by linarith
  from store_bytes_be_assert [of "ssize - 1" x] assms(1,2) x this
  have "store_bytes_be (ssize - 1) (word_of_int x) = Inr (store_bytes_be_raw (ssize - 1) (word_of_int x))"
    by simp
  then show ?thesis
    by (simp add: encode_dim_def x_def [symmetric])
qed

lemma encode_dim_overflow:
  assumes "0 \<le> ssize - 1" "ssize - 1 \<le> 7" "2 ^ (8 * nat (ssize - 1)) \<le> dim" "dim < 2 ^ 64"
  shows "encode_dim K bc ssize dim = Inl Assertion_failed"
proof -
  have "0 \<le> dim"
    using assms(3) by (meson order_trans zero_le_numeral zero_le_power)
  with store_bytes_be_assert [of "ssize - 1" dim] assms
  have "store_bytes_be (ssize - 1) (word_of_int dim) = Inl Assertion_failed"
    by simp
  moreover have "\<not> dim < 0"
    using \<open>0 \<le> dim\<close> by simp
  ultimately show ?thesis
    by (simp add: encode_dim_def)
qed

lemma encode_shape_fits:
  assumes "0 \<le> ssize - 1" "ssize - 1 \<le> 7"
    and "\<forall>dim \<in> set dims. dim < 2 ^ (8 * nat (ssize - 1))"
  shows "encode_shape K bc ssize dims =
           Inr (concat (map (\<lambda>dim. (if dim < 0 then variable_tag K bc else 0)
                                     # store_bytes_be_raw (ssize - 1)
                                         (word_of_int (if dim < 0 then 0 else dim))) dims))"
  using assms(3)
proof (induction dims)
  case Nil
  then show ?case by simp
next
  case (Cons dim dims)
  then have "dim < 2 ^ (8 * nat (ssize - 1))" by simp
  from encode_dim_fits [OF assms(1,2) this] Cons show ?case
    by simp
qed

lemma encode_field_fits:
  assumes "0 \<le> fsize - 1" "fsize - 1 \<le> 7" "0 \<le> snd field" "snd field < 2 ^ (8 * nat (fsize - 1))"
  shows "encode_field fsize field =
           Inr (of_char (fst field) # store_bytes_be_raw (fsize - 1) (word_of_int (snd field)))"
proof -
  from assms(2) have "nat (fsize - 1) \<le> 7" by simp
  from power_8_le [OF this] assms(4) have "snd field < 2 ^ 64" by linarith
  from store_bytes_be_assert [of "fsize - 1" "snd field"] assms this show ?thesis
    by (simp add: encode_field_def)
qed

lemma encode_format_fits:
  assumes "0 \<le> fsize - 1" "fsize - 1 \<le> 7"
    and "\<forall>field \<in> set fs. 0 \<le> snd field \<and> snd field < 2 ^ (8 * nat (fsize - 1))"
  shows "encode_format fsize fs =
           Inr (concat (map (\<lambda>field. of_char (fst field)
                                       # store_bytes_be_raw (fsize - 1) (word_of_int (snd field))) fs))"
  using assms(3)
proof (induction fs)
  case Nil
  then show ?case by simp
next
  case (Cons field fs)
  then have "0 \<le> snd field" "snd field < 2 ^ (8 * nat (fsize - 1))" by simp_all
  from encode_field_fits [OF assms(1,2) this] Cons show ?case
    by simp
qed

text \<open>
  The blob of a descriptor that passes the check on the id and whose format widths and
  dimensions fit: the header word, the item pointers, the name, the description, one entry
  of \<open>field_size\<close> bytes for each format field, one entry of \<open>shape_size\<close> bytes for each
  dimension, and the numpy header.
\<close>

lemma encode_descriptor_blob:
  assumes flavour: "0 < hab" "hab < 8 * int sizeof_item_pointer_t" "8 dvd hab"
    and ok: "check_id d hab = None"
    and fmt: "\<forall>field \<in> set (format d).
                0 \<le> snd field \<and> snd field < 2 ^ (8 * nat (field_size K bc hab - 1))"
    and shp: "\<forall>dim \<in> set (shape d). dim < 2 ^ (8 * nat (shape_size K bc hab - 1))"
  shows "encode_descriptor K d hab bc =
           Inr (htobe (header_word hab d)
                @ concat (map htobe (item_pointers K bc hab d))
                @ map of_char (name d)
                @ map of_char (description d)
                @ concat (map (\<lambda>field. of_char (fst field)
                                 # store_bytes_be_raw (field_size K bc hab - 1)
                                     (word_of_int (snd field))) (format d))
                @ concat (map (\<lambda>dim. (if dim < 0 then variable_tag K bc else 0)
                                 # store_bytes_be_raw (shape_size K bc hab - 1)
                                     (word_of_int (if dim < 0 then 0 else dim))) (shape d))
                @ map of_char (numpy_header d))"
proof -
  from field_size_range [OF flavour, of K bc]
  have f: "0 \<le> field_size K bc hab - 1" "field_size K bc hab - 1 \<le> 7" by simp_all
  from shape_size_range [OF flavour, of K bc]
  have s: "0 \<le> shape_size K bc hab - 1" "shape_size K bc hab - 1 \<le> 7" by simp_all
  show ?thesis
    unfolding encode_descriptor_def
    by (simp add: ok encode_format_fits [OF f fmt] encode_shape_fits [OF s shp])
qed

lemma length_htobe: "length (htobe v) = 8"
  by (simp add: htobe_def)

lemma example_descriptor_fields:
  "id' (example_descriptor i dims) = i"
  "name (example_descriptor i dims) = ''x''"
  "description (example_descriptor i dims) = []"
  "format (example_descriptor i dims) = [(CHR ''u'', 32)]"
  "shape (example_descriptor i dims) = dims"
  "numpy_header (example_descriptor i dims) = []"
  by (simp_all add: example_descriptor_def)

text \<open>
  For every flavour that the constructor of \<open>send::heap\<close> admits, the check compares the id
  with \<open>1 << ((7 - heap_address_bits) mod 64)\<close>: with 8 heap address bits every id is
  refused, and with more the bound is \<open>2 ^ (71 - heap_address_bits)\<close>, which is 256 times
  the bound \<open>2 ^ (63 - heap_address_bits)\<close> of the legal ids.
\<close>

lemma check_id_versus_legal_id:
  assumes "0 < hab" "hab < 8 * int sizeof_item_pointer_t" "8 dvd hab"
  shows "(check_id d hab = None) =
           (hab \<noteq> 8 \<and> 0 < id' d \<and> id' d < 256 * 2 ^ nat (64 - 1 - hab))"
  using valid_bits_cases [OF assms]
  by (auto simp: check_id_def id_limit_8 id_limit_values)

text \<open>
  Claim C1.  The check on the id is meant to refuse exactly the ids outside
  \<open>0 < id < 2 ^ (64 - 1 - heap_address_bits)\<close>, and line 53 computes the bound from the size
  of an item pointer in bytes instead of bits.  With 8 heap address bits the id 7 is legal,
  and the check compares it with \<open>1 << 63\<close>, a negative number: \<open>encode_descriptor\<close> and
  \<open>add_descriptor\<close> fail with invalid-argument.  With 40 heap address bits the id
  \<open>2 ^ 23 = 8388608\<close> is not legal, and the check compares it with \<open>2 ^ 31\<close>: the descriptor
  is encoded, into a blob of 97 bytes.
\<close>

theorem encode_descriptor_id_check_bytes_for_bits:
  "legal_id 8 7
   \<and> check_id (example_descriptor 7 [-1, 4]) 8 = Some Invalid_argument
   \<and> encode_descriptor K (example_descriptor 7 [-1, 4]) 8 bc = Inl Invalid_argument
   \<and> (case send_heap_new 1 8 bc of
         Inl e \<Rightarrow> Inl e
       | Inr h \<Rightarrow> add_descriptor K h (example_descriptor 7 [-1, 4])) = Inl Invalid_argument
   \<and> \<not> legal_id 40 8388608
   \<and> check_id (example_descriptor 8388608 [-1, 4]) 40 = None
   \<and> (\<exists>blob. encode_descriptor K (example_descriptor 8388608 [-1, 4]) 40 0 = Inr blob
                \<and> length blob = 97)"
proof -
  have c8: "check_id (example_descriptor 7 [-1, 4]) 8 = Some Invalid_argument"
    by (simp add: check_id_def id_limit_8 example_descriptor_fields)
  have c40: "check_id (example_descriptor 8388608 [-1, 4]) 40 = None"
    by (simp add: check_id_def id_limit_values example_descriptor_fields)
  have e8: "encode_descriptor K (example_descriptor 7 [-1, 4]) 8 bc = Inl Invalid_argument"
    by (simp add: encode_descriptor_def c8)
  have a8: "(case send_heap_new 1 8 bc of
         Inl e \<Rightarrow> Inl e
       | Inr h \<Rightarrow> add_descriptor K h (example_descriptor 7 [-1, 4])) = Inl Invalid_argument"
    by (simp add: send_heap_new_def signed_modulo_int_def sizeof_item_pointer_t_def
          add_descriptor_def e8)
  have sizes: "field_size K 0 40 = 4" "shape_size K 0 40 = 6"
    by (simp_all add: field_size_def shape_size_def int_of_size_t_def size_t_of_int_def
          sizeof_item_pointer_t_def signed_divide_int_def)
  have "encode_descriptor K (example_descriptor 8388608 [-1, 4]) 40 0 =
      Inr (htobe (header_word 40 (example_descriptor 8388608 [-1, 4]))
           @ concat (map htobe (item_pointers K 0 40 (example_descriptor 8388608 [-1, 4])))
           @ map of_char (name (example_descriptor 8388608 [-1, 4]))
           @ map of_char (description (example_descriptor 8388608 [-1, 4]))
           @ concat (map (\<lambda>field. of_char (fst field)
                            # store_bytes_be_raw (field_size K 0 40 - 1) (word_of_int (snd field)))
                       (format (example_descriptor 8388608 [-1, 4])))
           @ concat (map (\<lambda>dim. (if dim < 0 then variable_tag K 0 else 0)
                            # store_bytes_be_raw (shape_size K 0 40 - 1)
                                (word_of_int (if dim < 0 then 0 else dim)))
                       (shape (example_descriptor 8388608 [-1, 4])))
           @ map of_char (numpy_header (example_descriptor 8388608 [-1, 4])))"
    by (rule encode_descriptor_blob)
      (simp_all add: c40 sizes sizeof_item_pointer_t_def example_descriptor_fields)
  then have "\<exists>blob. encode_descriptor K (example_descriptor 8388608 [-1, 4]) 40 0 = Inr blob
                \<and> length blob = 97"
    by (simp add: sizes length_htobe store_bytes_be_raw_length item_pointers_def
          example_descriptor_fields Let_def)
  with c8 c40 e8 a8 show ?thesis
    by (simp add: legal_id_def)
qed

text \<open>
  Claim C7.  The sizes and the tag byte are as the claim has them, and the remaining bytes
  of a shape entry hold the dimension when it fits (\<open>shape_entry_layout\<close>,
  \<open>encode_descriptor_blob\<close>).  A dimension of \<open>2 ^ (8 * (shape_size - 1))\<close> or more is not
  refused: \<open>encode_descriptor\<close> passes it to \<open>store_bytes_be\<close> against the precondition that
  \<open>store_bytes_be\<close> asserts, under the comment ``TODO: validate that it fits''.  With 16 heap
  address bits and the shape \<open>[-1, 65536]\<close> the id check passes, the format entry and the
  entry of the first dimension are encoded, and the assertion fails for the second
  dimension; the bytes that the body of \<open>store_bytes_be\<close> stores without the assertion are
  \<open>00 00\<close>.  The same happens with 40 heap address bits for the dimension \<open>2 ^ 40\<close>.
\<close>

theorem encode_descriptor_dimension_overflow:
  "check_id (example_descriptor 7 [-1, 65536]) 16 = None
   \<and> field_size K 0 16 = 7 \<and> shape_size K 0 16 = 3
   \<and> encode_format (field_size K 0 16) (format (example_descriptor 7 [-1, 65536]))
       = Inr [0x75, 0, 0, 0, 0, 0, 32]
   \<and> encode_dim K 0 (shape_size K 0 16) (- 1) = Inr [1, 0, 0]
   \<and> encode_dim K 0 (shape_size K 0 16) 65536 = Inl Assertion_failed
   \<and> encode_descriptor K (example_descriptor 7 [-1, 65536]) 16 0 = Inl Assertion_failed
   \<and> store_bytes_be_raw (shape_size K 0 16 - 1) (word_of_int 65536) = [0, 0]
   \<and> check_id (example_descriptor 7 [-1, 1099511627776]) 40 = None
   \<and> encode_descriptor K (example_descriptor 7 [-1, 1099511627776]) 40 0 = Inl Assertion_failed"
proof -
  have c: "check_id (example_descriptor 7 [-1, 65536]) 16 = None"
    by (simp add: check_id_def id_limit_values example_descriptor_fields)
  have sizes: "field_size K 0 16 = 7" "shape_size K 0 16 = 3"
    by (simp_all add: field_size_def shape_size_def int_of_size_t_def size_t_of_int_def
          sizeof_item_pointer_t_def signed_divide_int_def)
  have raw: "store_bytes_be_raw 6 (32 :: 64 word) = [0, 0, 0, 0, 0, 32]"
      "store_bytes_be_raw 2 (0 :: 64 word) = [0, 0]"
      "store_bytes_be_raw 2 (65536 :: 64 word) = [0, 0]"
    by (simp_all add: store_bytes_be_raw_def sizeof_item_pointer_t_def htobe_def upt_rec)
  have f: "encode_format 7 [(CHR ''u'', 32)] = Inr [0x75, 0, 0, 0, 0, 0, 32]"
    using encode_format_fits [of 7 "[(CHR ''u'', 32)]"] by (simp add: raw)
  have d1: "encode_dim K 0 3 (- 1) = Inr [1, 0, 0]"
    using encode_dim_fits [of 3 "- 1" K 0] by (simp add: raw variable_tag_def)
  have d2: "encode_dim K 0 3 65536 = Inl Assertion_failed"
    using encode_dim_overflow [of 3 65536 K 0] by simp
  have "encode_descriptor K (example_descriptor 7 [-1, 65536]) 16 0 = Inl Assertion_failed"
    by (simp add: encode_descriptor_def c sizes f d1 d2 example_descriptor_fields
          del: encode_format.simps)
  moreover have c40: "check_id (example_descriptor 7 [-1, 1099511627776]) 40 = None"
    by (simp add: check_id_def id_limit_values example_descriptor_fields)
  moreover have "encode_descriptor K (example_descriptor 7 [-1, 1099511627776]) 40 0
      = Inl Assertion_failed"
  proof -
    have s40: "field_size K 0 40 = 4" "shape_size K 0 40 = 6"
      by (simp_all add: field_size_def shape_size_def int_of_size_t_def size_t_of_int_def
            sizeof_item_pointer_t_def signed_divide_int_def)
    have "\<exists>bs. encode_format 4 [(CHR ''u'', 32)] = Inr bs"
      using encode_format_fits [of 4 "[(CHR ''u'', 32)]"] by simp
    moreover have "\<exists>bs. encode_dim K 0 6 (- 1) = Inr bs"
      using encode_dim_fits [of 6 "- 1" K 0] by simp
    moreover have "encode_dim K 0 6 1099511627776 = Inl Assertion_failed"
      using encode_dim_overflow [of 6 1099511627776 K 0] by simp
    ultimately show ?thesis
      by (auto simp add: encode_descriptor_def c40 s40 example_descriptor_fields
            simp del: encode_format.simps)
  qed
  ultimately show ?thesis
    using c sizes f d1 d2 raw
    by (simp add: example_descriptor_fields del: encode_format.simps)
qed


section \<open>Properties of the receive side\<close>

subsection \<open>The search for a matching heap and ascending collections\<close>

lemma find_heap_Some:
  assumes "find_heap hs c i ib = (Some j, ib')"
  shows "i \<le> j \<and> j - i < length hs \<and> cnt (hs ! (j - i)) = c"
  using assms
proof (induction hs arbitrary: i ib)
  case Nil
  then show ?case by simp
next
  case (Cons h hs)
  show ?case
  proof (cases "cnt h = c")
    case True
    with Cons.prems show ?thesis by simp
  next
    case False
    then have "find_heap hs c (Suc i) (if cnt h < c then Suc i else ib) = (Some j, ib')"
      using Cons.prems by (simp split: if_splits)
    from Cons.IH [OF this] show ?thesis
      by (auto simp: Suc_diff_le)
  qed
qed

lemma find_heap_None:
  assumes "find_heap hs c i ib = (None, ib')"
  shows "\<forall>h \<in> set hs. cnt h \<noteq> c"
  using assms
  by (induction hs arbitrary: i ib) (auto split: if_splits)

lemma find_heap_no_match:
  assumes "\<forall>h \<in> set hs. cnt h \<noteq> c"
  shows "\<exists>ib'. find_heap hs c i ib = (None, ib')"
  using assms
  by (induction hs arbitrary: i ib) auto

lemma ascending_Cons:
  "ascending (h # hs) = ((\<forall>x \<in> set hs. cnt h < cnt x) \<and> ascending hs)"
  by (auto simp: ascending_def)

lemma find_heap_position:
  assumes "ascending hs" "find_heap hs c i ib = (None, ib')"
  shows "ib' = (if \<exists>h \<in> set hs. cnt h < c then i + length (takeWhile (\<lambda>h. cnt h < c) hs) else ib)"
  using assms
proof (induction hs arbitrary: i ib)
  case Nil
  then show ?case by simp
next
  case (Cons h hs)
  from Cons.prems(1) have asc: "ascending hs" and lt: "\<forall>x \<in> set hs. cnt h < cnt x"
    by (simp_all add: ascending_Cons)
  from Cons.prems(2) have ne: "cnt h \<noteq> c"
    by (auto split: if_splits)
  show ?case
  proof (cases "cnt h < c")
    case True
    with ne Cons.prems(2) have "find_heap hs c (Suc i) (Suc i) = (None, ib')" by simp
    from Cons.IH [OF asc this] True show ?thesis
      by (auto simp: takeWhile_eq_Nil_iff dest: hd_in_set)
  next
    case False
    with ne Cons.prems(2) have "find_heap hs c (Suc i) ib = (None, ib')" by simp
    moreover from False lt have "\<not> (\<exists>x \<in> set hs. cnt x < c)" by fastforce
    ultimately show ?thesis
      using Cons.IH [OF asc] False by auto
  qed
qed

lemma ascending_dropWhile:
  assumes "ascending hs"
  shows "\<forall>x \<in> set (dropWhile (\<lambda>h. cnt h < c) hs). c \<le> cnt x"
  using assms
  by (induction hs) (auto simp: ascending_Cons)

lemma ascending_append:
  "ascending (xs @ ys) = (ascending xs \<and> ascending ys \<and> (\<forall>x \<in> set xs. \<forall>y \<in> set ys. cnt x < cnt y))"
  by (auto simp: ascending_def sorted_wrt_append)

lemma insert_heap_position:
  assumes "ascending hs" "find_heap hs c 0 0 = (None, ib)"
  shows "insert_heap hs ib h = takeWhile (\<lambda>x. cnt x < c) hs @ [h] @ dropWhile (\<lambda>x. cnt x < c) hs"
proof -
  have "ib = length (takeWhile (\<lambda>x. cnt x < c) hs)"
    using find_heap_position [OF assms] by (auto simp: takeWhile_eq_Nil_iff dest: hd_in_set)
  then show ?thesis
    by (simp add: insert_heap_def takeWhile_eq_take [symmetric] dropWhile_eq_drop [symmetric])
qed

lemma ascending_insert_heap:
  assumes "ascending hs" "find_heap hs c 0 0 = (None, ib)" "cnt h = c"
  shows "ascending (insert_heap hs ib h)"
proof -
  let ?P = "\<lambda>x. cnt x < c"
  have split: "hs = takeWhile ?P hs @ dropWhile ?P hs" by simp
  with assms(1) have parts: "ascending (takeWhile ?P hs)" "ascending (dropWhile ?P hs)"
    by (metis ascending_append)+
  have low: "\<forall>x \<in> set (takeWhile ?P hs). cnt x < c"
    by (auto dest: set_takeWhileD)
  have "\<forall>x \<in> set (dropWhile ?P hs). cnt x \<noteq> c"
    using find_heap_None [OF assms(2)] by (auto dest: set_dropWhileD)
  with ascending_dropWhile [OF assms(1), of c] have high: "\<forall>x \<in> set (dropWhile ?P hs). c < cnt x"
    by fastforce
  show ?thesis
    unfolding insert_heap_position [OF assms(1,2)]
    using parts low high assms(3) by (fastforce simp: ascending_append ascending_Cons)
qed

lemma ascending_remove:
  assumes "ascending hs"
  shows "ascending (take i hs @ drop (Suc i) hs)"
proof (cases "i < length hs")
  case True
  then have "hs = take i hs @ hs ! i # drop (Suc i) hs"
    by (rule id_take_nth_drop)
  with assms have "ascending (take i hs @ hs ! i # drop (Suc i) hs)" by simp
  then show ?thesis
    by (auto simp: ascending_append ascending_Cons)
next
  case False
  with assms show ?thesis by simp
qed

lemma ascending_update:
  assumes "ascending hs" "i < length hs" "cnt h = cnt (hs ! i)"
  shows "ascending (hs[i := h])"
proof -
  have "map cnt (hs[i := h]) = (map cnt hs)[i := cnt (hs ! i)]"
    using assms(3) by (simp add: map_update)
  also have "\<dots> = map cnt hs"
    using assms(2) by (simp add: list_update_same_conv)
  finally show ?thesis
    using assms(1) by (simp add: ascending_def)
qed

lemma ascending_tl: "ascending hs \<Longrightarrow> ascending (tl hs)"
  by (cases hs) (simp_all add: ascending_Cons)

subsection \<open>flush, stop and dispatch, case by case\<close>

lemma foldl_heap_ready: "foldl heap_ready s hs = s\<lparr>ready := ready s @ hs\<rparr>"
  by (induction hs arbitrary: s) (simp_all add: heap_ready_def)

lemma flush_eq: "flush s = s\<lparr>ready := ready s @ heaps s, heaps := []\<rparr>"
  by (simp add: flush_def foldl_heap_ready)

lemma stop_eq: "stop s = s\<lparr>stopped := True, ready := ready s @ heaps s, heaps := []\<rparr>"
  by (simp add: stop_def flush_eq)

lemma dispatch_found:
  assumes "find_heap (heaps s) (packet_header.heap_cnt p) 0 0 = (Some i, ib)"
    and "heap_add_packet H (heaps s ! i) p = (ok, h)"
  shows "dispatch H s p =
           (if ok
            then (if is_complete H h
                  then (True, is_end_of_stream H h,
                        s\<lparr>ready := ready s @ [h], heaps := take i (heaps s) @ drop (Suc i) (heaps s)\<rparr>)
                  else (True, is_end_of_stream H h, s\<lparr>heaps := (heaps s)[i := h]\<rparr>))
            else (False, False, s\<lparr>heaps := (heaps s)[i := h]\<rparr>))"
  using assms by (cases ok) (simp_all add: dispatch_def heap_ready_def)

lemma dispatch_new:
  assumes "find_heap (heaps s) (packet_header.heap_cnt p) 0 0 = (None, ib)"
    and "heap_add_packet H (new_heap H s p) p = (ok, h)"
  shows "dispatch H s p =
           (if ok
            then (if is_complete H h
                  then (True, is_end_of_stream H h, s\<lparr>ready := ready s @ [h]\<rparr>)
                  else if length (insert_heap (heaps s) ib h) > max_heaps s
                       then (True, is_end_of_stream H h,
                             s\<lparr>ready := ready s @ [hd (insert_heap (heaps s) ib h)],
                               heaps := tl (insert_heap (heaps s) ib h)\<rparr>)
                       else (True, is_end_of_stream H h, s\<lparr>heaps := insert_heap (heaps s) ib h\<rparr>))
            else (False, False, s))"
  using assms by (cases ok) (simp_all add: dispatch_def heap_ready_def)

lemma new_heap_cnt:
  assumes "heap_ops_keep_cnt H" "heap_add_packet H (new_heap H s p) p = (ok, h)"
  shows "cnt h = packet_header.heap_cnt p"
proof -
  have "cnt h = cnt (snd (heap_add_packet H (new_heap H s p) p))"
    using assms(2) by simp
  also have "\<dots> = cnt (new_heap H s p)"
    using assms(1) by (simp add: heap_ops_keep_cnt_def)
  also have "\<dots> = packet_header.heap_cnt p"
    using assms(1) by (simp add: heap_ops_keep_cnt_def new_heap_def)
  finally show ?thesis .
qed

lemma found_heap_cnt:
  assumes "heap_ops_keep_cnt H" "heap_add_packet H h0 p = (ok, h)"
  shows "cnt h = cnt h0"
proof -
  have "cnt h = cnt (snd (heap_add_packet H h0 p))"
    using assms(2) by simp
  then show ?thesis
    using assms(1) by (simp add: heap_ops_keep_cnt_def)
qed

lemma length_insert_heap: "length (insert_heap hs ib h) = Suc (length hs)"
  by (simp add: insert_heap_def)

lemma dispatch_ascending:
  assumes keep: "heap_ops_keep_cnt H" and asc: "ascending (heaps s)"
    and d: "dispatch H s p = (r, e, s1)"
  shows "ascending (heaps s1)"
proof -
  obtain found ib where fh: "find_heap (heaps s) (packet_header.heap_cnt p) 0 0 = (found, ib)"
    by (cases "find_heap (heaps s) (packet_header.heap_cnt p) 0 0")
  show ?thesis
  proof (cases found)
    case None
    obtain ok h where ap: "heap_add_packet H (new_heap H s p) p = (ok, h)"
      by (cases "heap_add_packet H (new_heap H s p) p")
    from fh None have fh': "find_heap (heaps s) (packet_header.heap_cnt p) 0 0 = (None, ib)"
      by simp
    have "ascending (insert_heap (heaps s) ib h)"
      using ascending_insert_heap [OF asc fh' new_heap_cnt [OF keep ap]] .
    then show ?thesis
      using d asc unfolding dispatch_new [OF fh' ap]
      by (auto split: if_splits dest: ascending_tl)
  next
    case (Some i)
    obtain ok h where ap: "heap_add_packet H (heaps s ! i) p = (ok, h)"
      by (cases "heap_add_packet H (heaps s ! i) p")
    from fh Some have fh': "find_heap (heaps s) (packet_header.heap_cnt p) 0 0 = (Some i, ib)"
      by simp
    from find_heap_Some [OF fh'] have i: "i < length (heaps s)" by simp
    have "ascending ((heaps s)[i := h])"
      using ascending_update [OF asc i found_heap_cnt [OF keep ap]] .
    moreover have "ascending (take i (heaps s) @ drop (Suc i) (heaps s))"
      using ascending_remove [OF asc] .
    ultimately show ?thesis
      using d unfolding dispatch_found [OF fh' ap]
      by (auto split: if_splits)
  qed
qed

lemma add_packet_ascending:
  assumes "heap_ops_keep_cnt H" "ascending (heaps s)" "add_packet H s p = Inr (r, s')"
  shows "ascending (heaps s')"
proof -
  obtain r0 e s1 where d: "dispatch H s p = (r0, e, s1)"
    by (cases "dispatch H s p")
  from dispatch_ascending [OF assms(1,2) d] have "ascending (heaps s1)" .
  moreover have "ascending (heaps (stop s1))"
    by (simp add: stop_eq ascending_def)
  ultimately show ?thesis
    using assms(3) d by (auto simp: add_packet_def split: if_splits)
qed

lemma step_ascending:
  assumes "heap_ops_keep_cnt H" "ascending (heaps s)" "step H s x = Inr s'"
  shows "ascending (heaps s')"
proof (cases x)
  case (Add_packet p)
  with assms(3) obtain r where "add_packet H s p = Inr (r, s')"
    by (auto split: sum.splits)
  from add_packet_ascending [OF assms(1,2) this] show ?thesis .
qed (use assms in \<open>auto simp: set_max_heaps_def set_mempool_def flush_eq stop_eq ascending_def\<close>)

lemma run_ascending:
  assumes "heap_ops_keep_cnt H" "ascending (heaps s)" "run H s ops = Inr s'"
  shows "ascending (heaps s')"
  using assms(2,3)
proof (induction ops arbitrary: s)
  case Nil
  then show ?case by simp
next
  case (Cons x xs)
  from Cons.prems(2) obtain s1 where s1: "step H s x = Inr s1" "run H s1 xs = Inr s'"
    by (auto split: sum.splits)
  from step_ascending [OF assms(1) Cons.prems(1) s1(1)] have "ascending (heaps s1)" .
  from Cons.IH [OF this s1(2)] show ?case .
qed

subsection \<open>The number of live heaps\<close>

lemma dispatch_length:
  assumes "dispatch H s p = (r, e, s1)"
  shows "length (heaps s1) \<le> max (length (heaps s)) (max_heaps s) \<and> max_heaps s1 = max_heaps s"
proof -
  obtain found ib where fh: "find_heap (heaps s) (packet_header.heap_cnt p) 0 0 = (found, ib)"
    by (cases "find_heap (heaps s) (packet_header.heap_cnt p) 0 0")
  show ?thesis
  proof (cases found)
    case None
    obtain ok h where ap: "heap_add_packet H (new_heap H s p) p = (ok, h)"
      by (cases "heap_add_packet H (new_heap H s p) p")
    from fh None have fh': "find_heap (heaps s) (packet_header.heap_cnt p) 0 0 = (None, ib)"
      by simp
    show ?thesis
      using assms unfolding dispatch_new [OF fh' ap]
      by (auto simp: length_insert_heap split: if_splits)
  next
    case (Some i)
    obtain ok h where ap: "heap_add_packet H (heaps s ! i) p = (ok, h)"
      by (cases "heap_add_packet H (heaps s ! i) p")
    from fh Some have fh': "find_heap (heaps s) (packet_header.heap_cnt p) 0 0 = (Some i, ib)"
      by simp
    show ?thesis
      using assms unfolding dispatch_found [OF fh' ap]
      by (auto split: if_splits)
  qed
qed

lemma add_packet_length:
  assumes "add_packet H s p = Inr (r, s')"
  shows "length (heaps s') \<le> max (length (heaps s)) (max_heaps s) \<and> max_heaps s' = max_heaps s"
proof -
  obtain r0 e s1 where d: "dispatch H s p = (r0, e, s1)"
    by (cases "dispatch H s p")
  from dispatch_length [OF d] assms d show ?thesis
    by (auto simp: add_packet_def stop_eq split: if_splits)
qed

lemma run_length:
  assumes "length (heaps s) \<le> max_heaps s" "never_lowered (max_heaps s) ops" "run H s ops = Inr s'"
  shows "length (heaps s') \<le> max_heaps s'"
  using assms
proof (induction ops arbitrary: s)
  case Nil
  then show ?case by simp
next
  case (Cons x xs)
  from Cons.prems(3) obtain s1 where s1: "step H s x = Inr s1" "run H s1 xs = Inr s'"
    by (auto split: sum.splits)
  have "length (heaps s1) \<le> max_heaps s1 \<and> never_lowered (max_heaps s1) xs"
  proof (cases x)
    case (Add_packet p)
    with s1(1) obtain r where "add_packet H s p = Inr (r, s1)"
      by (auto split: sum.splits)
    from add_packet_length [OF this] Cons.prems(1,2) Add_packet show ?thesis
      by simp
  next
    case (Set_max_heaps m)
    with s1(1) Cons.prems(1,2) show ?thesis
      by (auto simp: set_max_heaps_def)
  next
    case (Set_mempool q)
    with s1(1) Cons.prems(1,2) show ?thesis
      by (auto simp: set_mempool_def)
  next
    case Flush
    with s1(1) Cons.prems(1,2) show ?thesis
      by (auto simp: flush_eq)
  next
    case Stop
    with s1(1) Cons.prems(1,2) show ?thesis
      by (auto simp: stop_eq)
  qed
  then show ?case
    using Cons.IH [OF _ _ s1(2)] by simp
qed

subsection \<open>Rejected packets\<close>

lemma dispatch_rejected:
  assumes rej: "heap_ops_reject_unchanged H" and d: "dispatch H s p = (False, e, s1)"
  shows "e = False \<and> s1 = s"
proof -
  obtain found ib where fh: "find_heap (heaps s) (packet_header.heap_cnt p) 0 0 = (found, ib)"
    by (cases "find_heap (heaps s) (packet_header.heap_cnt p) 0 0")
  show ?thesis
  proof (cases found)
    case None
    obtain ok h where ap: "heap_add_packet H (new_heap H s p) p = (ok, h)"
      by (cases "heap_add_packet H (new_heap H s p) p")
    from fh None have fh': "find_heap (heaps s) (packet_header.heap_cnt p) 0 0 = (None, ib)"
      by simp
    show ?thesis
      using d unfolding dispatch_new [OF fh' ap]
      by (auto split: if_splits)
  next
    case (Some i)
    obtain ok h where ap: "heap_add_packet H (heaps s ! i) p = (ok, h)"
      by (cases "heap_add_packet H (heaps s ! i) p")
    from fh Some have fh': "find_heap (heaps s) (packet_header.heap_cnt p) 0 0 = (Some i, ib)"
      by simp
    have "h = heaps s ! i" if "\<not> ok"
      using rej ap that unfolding heap_ops_reject_unchanged_def
      by (metis fst_conv snd_conv)
    then show ?thesis
      using d unfolding dispatch_found [OF fh' ap]
      by (auto split: if_splits)
  qed
qed

subsection \<open>End of stream\<close>

lemma dispatch_target:
  assumes "heap_add_packet H (target_heap H s p) p = (ok, h)"
  shows "fst (dispatch H s p) = ok \<and> fst (snd (dispatch H s p)) = (ok \<and> is_end_of_stream H h)"
proof -
  obtain found ib where fh: "find_heap (heaps s) (packet_header.heap_cnt p) 0 0 = (found, ib)"
    by (cases "find_heap (heaps s) (packet_header.heap_cnt p) 0 0")
  show ?thesis
  proof (cases found)
    case None
    with fh have fh': "find_heap (heaps s) (packet_header.heap_cnt p) 0 0 = (None, ib)"
      by simp
    with assms have ap: "heap_add_packet H (new_heap H s p) p = (ok, h)"
      by (simp add: target_heap_def)
    show ?thesis
      unfolding dispatch_new [OF fh' ap] by simp
  next
    case (Some i)
    with fh have fh': "find_heap (heaps s) (packet_header.heap_cnt p) 0 0 = (Some i, ib)"
      by simp
    with assms have ap: "heap_add_packet H (heaps s ! i) p = (ok, h)"
      by (simp add: target_heap_def)
    show ?thesis
      unfolding dispatch_found [OF fh' ap] by simp
  qed
qed

subsection \<open>A packet for a new heap\<close>

lemma ascending_takeWhile_filter:
  assumes "ascending hs"
  shows "takeWhile (\<lambda>x. cnt x < c) hs = filter (\<lambda>x. cnt x < c) hs"
  using assms
proof (induction hs)
  case Nil
  then show ?case by simp
next
  case (Cons h hs)
  then have lt: "\<forall>x \<in> set hs. cnt h < cnt x" and asc: "ascending hs"
    by (simp_all add: ascending_Cons)
  show ?case
  proof (cases "cnt h < c")
    case True
    with Cons.IH [OF asc] show ?thesis by simp
  next
    case False
    with lt have "\<forall>x \<in> set hs. \<not> cnt x < c" by fastforce
    then have "filter (\<lambda>x. cnt x < c) hs = []"
      by (simp add: filter_empty_conv)
    with False show ?thesis by simp
  qed
qed

lemma ascending_dropWhile_filter:
  assumes "ascending hs" "\<forall>x \<in> set hs. cnt x \<noteq> c"
  shows "dropWhile (\<lambda>x. cnt x < c) hs = filter (\<lambda>x. c < cnt x) hs"
  using assms
proof (induction hs)
  case Nil
  then show ?case by simp
next
  case (Cons h hs)
  then have lt: "\<forall>x \<in> set hs. cnt h < cnt x" and asc: "ascending hs"
    by (simp_all add: ascending_Cons)
  show ?case
  proof (cases "cnt h < c")
    case True
    with Cons.IH [OF asc] Cons.prems(2) show ?thesis by simp
  next
    case False
    with Cons.prems(2) have "c < cnt h" by fastforce
    with lt have "\<forall>x \<in> set hs. c < cnt x" by fastforce
    then have "filter (\<lambda>x. c < cnt x) hs = hs"
      by (simp add: filter_id_conv)
    with False \<open>c < cnt h\<close> show ?thesis by simp
  qed
qed

lemma ascending_hd_least:
  assumes "ascending hs" "x \<in> set hs"
  shows "cnt (hd hs) \<le> cnt x"
  using assms by (cases hs) (auto simp: ascending_Cons)

lemma ascending_distinct:
  assumes "ascending hs"
  shows "distinct hs"
proof -
  from assms have "distinct (map cnt hs)"
    by (simp add: ascending_def strict_sorted_iff)
  then show ?thesis
    by (simp add: distinct_map)
qed

subsection \<open>Invariants of runs\<close>

lemma fresh_ascending: "ascending (heaps (stream_base_new bc n))"
  by (simp add: stream_base_new_def ascending_def)

subsection \<open>mem_to_stream\<close>

lemma add_packet_running:
  assumes "\<not> stopped s"
  shows "\<exists>r s'. add_packet H s p = Inr (r, s')"
  using assms by (cases "dispatch H s p") (simp add: add_packet_def)

lemma feed_stopped:
  assumes "stopped s"
  shows "feed H s ps = (0, s)"
  using assms by (cases ps) (simp_all add: add_packet_def)

lemma mem_to_stream_loop_feed:
  assumes contract: "\<forall>bs. fst (decode_packet bs) \<le> length bs"
  shows "mem_to_stream_loop H decode_packet s ptr bs =
           Inr (ptr + fst (feed H s (packets_of decode_packet bs)),
                snd (feed H s (packets_of decode_packet bs)))"
  using contract
proof (induction H decode_packet s ptr bs rule: mem_to_stream_loop.induct)
  case (1 H decode_packet s ptr bs)
  let ?n = "fst (decode_packet bs)"
  show ?case
  proof (cases "bs \<noteq> [] \<and> \<not> stopped s \<and> 0 < ?n")
    case False
    then have "mem_to_stream_loop H decode_packet s ptr bs = Inr (ptr, s)"
      by (subst mem_to_stream_loop.simps) (auto simp: is_stopped_def)
    moreover have "feed H s (packets_of decode_packet bs) = (0, s)"
    proof (cases "stopped s")
      case True
      then show ?thesis by (rule feed_stopped)
    next
      case running: False
      with False have "packets_of decode_packet bs = []"
        by (subst packets_of.simps) auto
      then show ?thesis by simp
    qed
    ultimately show ?thesis by simp
  next
    case True
    then have fits: "\<not> length bs < ?n"
      using "1.prems" by (simp add: not_less)
    from True add_packet_running [of s H "snd (decode_packet bs)"]
    obtain r s' where ap: "add_packet H s (snd (decode_packet bs)) = Inr (r, s')"
      by blast
    have loop: "mem_to_stream_loop H decode_packet s ptr bs =
        mem_to_stream_loop H decode_packet s' (ptr + ?n) (drop ?n bs)"
      using True fits ap by (subst mem_to_stream_loop.simps) (simp add: is_stopped_def)
    have pk: "packets_of decode_packet bs = decode_packet bs # packets_of decode_packet (drop ?n bs)"
      using True fits by (subst packets_of.simps) simp
    have "mem_to_stream_loop H decode_packet s' (ptr + ?n) (drop ?n bs) =
        Inr (ptr + ?n + fst (feed H s' (packets_of decode_packet (drop ?n bs))),
             snd (feed H s' (packets_of decode_packet (drop ?n bs))))"
      using True fits ap "1.prems" by (intro "1.IH") (simp_all add: is_stopped_def)
    with loop pk ap show ?thesis
      by simp
  qed
qed

lemma feed_running:
  assumes "\<not> stopped (snd (feed H s ps))"
  shows "fst (feed H s ps) = sum_list (map fst ps)"
  using assms
proof (induction ps arbitrary: s)
  case Nil
  then show ?case by simp
next
  case (Cons x xs)
  show ?case
  proof (cases "add_packet H s (snd x)")
    case (Inl e)
    then have "stopped s"
      by (cases "dispatch H s (snd x)") (auto simp: add_packet_def split: if_splits)
    with Cons.prems feed_stopped [of s H "x # xs"] show ?thesis
      by simp
  next
    case (Inr y)
    then obtain r s' where "add_packet H s (snd x) = Inr (r, s')"
      by (cases y) simp
    with Cons show ?thesis
      by simp
  qed
qed

subsection \<open>The heap and the decoder of the specification\<close>

lemma spec_heap_ops_keep_cnt: "heap_ops_keep_cnt (spec_heap_ops c)"
  by (simp add: heap_ops_keep_cnt_def spec_heap_ops_def cnt_def spec_heap_new_def
        spec_heap_set_mempool_def spec_heap_add_packet_def payload_write_def payload_reserve_def
        Let_def)

lemma spec_heap_ops_reject_unchanged: "heap_ops_reject_unchanged (spec_heap_ops c)"
  by (simp add: heap_ops_reject_unchanged_def spec_heap_ops_def spec_heap_add_packet_def Let_def)

lemma spec_decode_packet_size: "fst (spec_decode_packet bs) \<le> length bs"
  by (simp add: spec_decode_packet_def Let_def)

lemmas heap_eval =
  half_packet_def stop_packet_def overflow_packet_def partial_heap_def example_stream_def
  spec_heap_ops_def spec_heap_new_def spec_heap_set_mempool_def spec_heap_add_packet_def
  spec_is_complete_def spec_is_end_of_stream_def payload_reserve_def payload_write_def
  is_stream_stop_def max_address_def pointer_immediate_def pointer_id_def pointer_value_def
  STREAM_CTRL_ID_def cnt_def Let_def

lemmas stream_eval =
  stream_base_new_def add_packet_def dispatch_def new_heap_def insert_heap_def heap_ready_def
  flush_def stop_def set_max_heaps_def set_mempool_def

lemmas pointer_eval =
  standard_value_def standard_pointer_def other_pointers_def pointer_immediate_def
  pointer_id_def pointer_value_def

lemma htobe_bytes:
  "htobe v = [ucast (drop_bit 56 v), ucast (drop_bit 48 v), ucast (drop_bit 40 v),
              ucast (drop_bit 32 v), ucast (drop_bit 24 v), ucast (drop_bit 16 v),
              ucast (drop_bit 8 v), ucast v]"
  by (simp add: htobe_def upt_rec)

lemma stop_packet_bytes_eq:
  "stop_packet_bytes =
     [0x53, 0x04, 0x03, 0x05, 0, 0, 0, 0x04,
      0x80, 0, 0x01, 0, 0, 0, 0, 0x01,
      0x80, 0, 0x03, 0, 0, 0, 0, 0,
      0x80, 0, 0x04, 0, 0, 0, 0, 0,
      0x80, 0, 0x06, 0, 0, 0, 0, 0x02]"
  by (simp add: stop_packet_bytes_def htobe_bytes)

lemma data_packet_bytes_eq:
  "data_packet_bytes =
     [0x53, 0x04, 0x03, 0x05, 0, 0, 0, 0x03,
      0x80, 0, 0x01, 0, 0, 0, 0, 0x02,
      0x80, 0, 0x03, 0, 0, 0, 0, 0,
      0x80, 0, 0x04, 0, 0, 0, 0, 0x01,
      0xAA]"
  by (simp add: data_packet_bytes_def htobe_bytes)

lemma stop_packet_words:
  "word_at (stop_packet_bytes @ rest) 0 = 0x5304030500000004"
  "pointer_words (stop_packet_bytes @ rest) 4 =
     [0x8000010000000001, 0x8000030000000000, 0x8000040000000000, 0x8000060000000002]"
  "length stop_packet_bytes = 40"
  by (simp_all add: stop_packet_bytes_eq word_at_def be_word_def pointer_words_def upt_rec)

lemma data_packet_words:
  "word_at (data_packet_bytes @ rest) 0 = 0x5304030500000003"
  "pointer_words (data_packet_bytes @ rest) 3 =
     [0x8000010000000002, 0x8000030000000000, 0x8000040000000001]"
  "length data_packet_bytes = 33"
  "drop 32 data_packet_bytes = [0xAA]"
  by (simp_all add: data_packet_bytes_eq word_at_def be_word_def pointer_words_def upt_rec)

lemma decode_stop_packet:
  "spec_decode_packet (stop_packet_bytes @ rest) = (40, stop_header)"
  by (simp add: spec_decode_packet_def stop_packet_words pointer_eval stop_header_def)

lemma decode_data_packet:
  "spec_decode_packet (data_packet_bytes @ rest) = (33, data_header)"
  by (simp add: spec_decode_packet_def data_packet_words pointer_eval data_header_def)

lemma decode_stray: "spec_decode_packet [0] = (0, no_packet)"
  by (simp add: spec_decode_packet_def)

lemma packets_of_stray: "packets_of spec_decode_packet [0] = []"
  by (subst packets_of.simps) (simp add: decode_stray)

lemma packets_of_example_buffer:
  "packets_of spec_decode_packet example_buffer = [(40, stop_header), (33, data_header)]"
proof -
  have "packets_of spec_decode_packet (data_packet_bytes @ [0]) = [(33, data_header)]"
    by (subst packets_of.simps) (simp add: decode_data_packet data_packet_words packets_of_stray)
  then show ?thesis
    unfolding example_buffer_def
    by (subst packets_of.simps) (simp add: decode_stop_packet stop_packet_words)
qed

lemma packets_of_repeated:
  "packets_of spec_decode_packet (data_packet_bytes @ data_packet_bytes @ [0]) =
     [(33, data_header), (33, data_header)]"
proof -
  have "packets_of spec_decode_packet (data_packet_bytes @ [0]) = [(33, data_header)]"
    by (subst packets_of.simps) (simp add: decode_data_packet data_packet_words packets_of_stray)
  then show ?thesis
    by (subst packets_of.simps) (simp add: decode_data_packet data_packet_words)
qed

lemma observe_Some:
  assumes "observe r = Some v"
  shows "\<exists>s. r = Inr s \<and> v = (map cnt (heaps s), map cnt (ready s), stopped s)"
  using assms by (cases r) (auto simp: observe_def)

lemma live_and_cap_Some:
  assumes "live_and_cap r = Some v"
  shows "\<exists>s. r = Inr s \<and> v = (length (heaps s), max_heaps s)"
  using assms by (cases r) (auto simp: live_and_cap_def)

text \<open>The stream with the partial heaps 1 and 3 is reached from a fresh stream.\<close>

lemma example_stream_reached:
  "run (spec_heap_ops 2) (stream_base_new 0 2)
     [Add_packet (half_packet 1 0), Add_packet (half_packet 3 0)] = Inr example_stream"
  by (simp add: heap_eval stream_eval)

section \<open>The claims about the receive side\<close>

text \<open>
  Claim C2 (amended).  \<open>set_max_heaps\<close> changes the cap and nothing else, so a lower cap
  leaves the live heaps in place, and \<open>add_packet\<close> never leaves more live heaps than the
  larger of the cap and the number there were before the call.  For every sequence of
  operations from a fresh stream in which \<open>set_max_heaps\<close> never lowers the cap, the number
  of live heaps is at most \<open>max_heaps\<close> after each operation, and at most \<open>max_heaps + 1\<close>
  between the insertion of a heap and the eviction that follows it.
\<close>

theorem live_heap_count_bounded:
  assumes "run H (stream_base_new bc n) ops = Inr s"
  shows "(never_lowered n ops \<longrightarrow>
            length (heaps s) \<le> max_heaps s
            \<and> (\<forall>ib h. length (insert_heap (heaps s) ib h) \<le> max_heaps s + 1))
       \<and> (\<forall>p r s'. add_packet H s p = Inr (r, s') \<longrightarrow>
              length (heaps s') \<le> max (length (heaps s)) (max_heaps s)
              \<and> max_heaps s' = max_heaps s)
       \<and> (\<forall>m. set_max_heaps s m = s\<lparr>max_heaps := m\<rparr>)"
proof -
  have "length (heaps s) \<le> max_heaps s" if "never_lowered n ops"
    using run_length [of "stream_base_new bc n" ops H s] that assms
    by (simp add: stream_base_new_def)
  then show ?thesis
    using add_packet_length [of H s] by (auto simp: length_insert_heap set_max_heaps_def)
qed

theorem live_heap_count_bounded_witness:
  "never_lowered 2 [Add_packet (half_packet 3 0), Add_packet (half_packet 1 0), Add_packet (half_packet 2 0)]
   \<and> live_and_cap (run (spec_heap_ops 2) (stream_base_new 0 2) [Add_packet (half_packet 3 0), Add_packet (half_packet 1 0), Add_packet (half_packet 2 0)]) = Some (2, 2)
   \<and> (\<exists>s. run (spec_heap_ops 2) (stream_base_new 0 2) [Add_packet (half_packet 3 0), Add_packet (half_packet 1 0), Add_packet (half_packet 2 0)] = Inr s
          \<and> length (heaps s) \<le> max_heaps s
          \<and> (\<forall>ib h. length (insert_heap (heaps s) ib h) \<le> max_heaps s + 1)
          \<and> set_max_heaps s 0 = s\<lparr>max_heaps := 0\<rparr>)"
proof -
  let ?ops = "[Add_packet (half_packet 3 0), Add_packet (half_packet 1 0), Add_packet (half_packet 2 0)]"
  have nl: "never_lowered 2 ?ops"
    by simp
  have lc: "live_and_cap (run (spec_heap_ops 2) (stream_base_new 0 2) ?ops) = Some (2, 2)"
    by (simp add: live_and_cap_def heap_eval stream_eval)
  from live_and_cap_Some [OF lc] obtain s
    where r: "run (spec_heap_ops 2) (stream_base_new 0 2) ?ops = Inr s"
    by blast
  note b = live_heap_count_bounded [OF r]
  from b nl have b1: "length (heaps s) \<le> max_heaps s"
    by (elim conjE impE) assumption+
  from b nl have b2: "\<forall>ib h. length (insert_heap (heaps s) ib h) \<le> max_heaps s + 1"
    by (elim conjE impE) assumption+
  from b have b3: "set_max_heaps s 0 = s\<lparr>max_heaps := 0\<rparr>"
    by (elim conjE allE [of _ 0]) assumption
  from nl lc r b1 b2 b3 show ?thesis
    by (intro conjI exI [of _ s]) assumption+
qed

text \<open>
  The claim as stated fails when the cap is lowered: with two live heaps, \<open>set_max_heaps(0)\<close>
  leaves two live heaps under the cap 0, and the next \<open>add_packet\<close> for a new heap returns
  with two live heaps still.
\<close>

theorem live_heap_count_counterexample:
  "live_and_cap (run (spec_heap_ops 2) (stream_base_new 0 2)
      [Add_packet (half_packet 1 0), Add_packet (half_packet 2 0), Set_max_heaps 0]) = Some (2, 0)
   \<and> live_and_cap (run (spec_heap_ops 2) (stream_base_new 0 2)
      [Add_packet (half_packet 1 0), Add_packet (half_packet 2 0), Set_max_heaps 0,
       Add_packet (half_packet 3 0)]) = Some (2, 0)"
  by (simp add: live_and_cap_def heap_eval stream_eval)

text \<open>
  Claim C3 (amended).  For a packet whose heap count matches no live heap, \<open>add_packet\<close>
  constructs a heap with the bug-compatibility mask and the memory pool of the stream and
  delegates the packet to it.  If the heap rejects the packet, nothing is inserted or passed
  to \<open>heap_ready\<close> and the stream is unchanged.  If it accepts the packet and is complete, it is
  passed to \<open>heap_ready\<close> and not inserted.  If it accepts the packet and is not complete, it
  is inserted after the live heaps with a lower count and before those with a higher count;
  if there are then more than \<open>max_heaps\<close> live heaps, the first of them, which has the
  lowest count, is passed to \<open>heap_ready\<close> and removed.
\<close>

theorem add_packet_new_heap:
  assumes nomatch: "\<forall>x \<in> set (heaps s). cnt x \<noteq> packet_header.heap_cnt p"
    and ap: "heap_add_packet H (new_heap H s p) p = (ok, h)"
    and keep: "heap_ops_keep_cnt H"
    and asc: "ascending (heaps s)"
  shows "new_heap H s p =
           heap_set_mempool H (heap_new H (packet_header.heap_cnt p) (stream_base.bug_compat s))
             (stream_base.pool s)
       \<and> (\<exists>ins. ins = filter (\<lambda>x. cnt x < cnt h) (heaps s) @ [h]
                          @ filter (\<lambda>x. cnt h < cnt x) (heaps s)
              \<and> ascending ins
              \<and> (\<forall>x \<in> set ins. cnt (hd ins) \<le> cnt x)
              \<and> dispatch H s p =
                  (if \<not> ok then (False, False, s)
                   else if is_complete H h
                   then (True, is_end_of_stream H h, s\<lparr>ready := ready s @ [h]\<rparr>)
                   else if length ins > max_heaps s
                   then (True, is_end_of_stream H h,
                         s\<lparr>ready := ready s @ [hd ins], heaps := tl ins\<rparr>)
                   else (True, is_end_of_stream H h, s\<lparr>heaps := ins\<rparr>)))"
proof -
  let ?c = "packet_header.heap_cnt p"
  from find_heap_no_match [OF nomatch, of 0 0]
  obtain ib where fh: "find_heap (heaps s) ?c 0 0 = (None, ib)" ..
  have c: "cnt h = ?c"
    using new_heap_cnt [OF keep ap] .
  have ins: "insert_heap (heaps s) ib h =
      filter (\<lambda>x. cnt x < cnt h) (heaps s) @ [h] @ filter (\<lambda>x. cnt h < cnt x) (heaps s)"
    unfolding insert_heap_position [OF asc fh] c
    using ascending_takeWhile_filter [OF asc, of ?c] ascending_dropWhile_filter [OF asc nomatch]
    by simp
  have a: "ascending (insert_heap (heaps s) ib h)"
    using ascending_insert_heap [OF asc fh c] .
  have least: "\<forall>x \<in> set (insert_heap (heaps s) ib h). cnt (hd (insert_heap (heaps s) ib h)) \<le> cnt x"
    using ascending_hd_least [OF a] by blast
  have d: "dispatch H s p =
      (if \<not> ok then (False, False, s)
       else if is_complete H h
       then (True, is_end_of_stream H h, s\<lparr>ready := ready s @ [h]\<rparr>)
       else if length (insert_heap (heaps s) ib h) > max_heaps s
       then (True, is_end_of_stream H h,
             s\<lparr>ready := ready s @ [hd (insert_heap (heaps s) ib h)],
               heaps := tl (insert_heap (heaps s) ib h)\<rparr>)
       else (True, is_end_of_stream H h, s\<lparr>heaps := insert_heap (heaps s) ib h\<rparr>))"
    unfolding dispatch_new [OF fh ap] by simp
  show ?thesis
  proof (intro conjI exI)
    show "new_heap H s p =
           heap_set_mempool H (heap_new H ?c (stream_base.bug_compat s)) (stream_base.pool s)"
      by (simp add: new_heap_def)
    show "insert_heap (heaps s) ib h =
        filter (\<lambda>x. cnt x < cnt h) (heaps s) @ [h] @ filter (\<lambda>x. cnt h < cnt x) (heaps s)"
      by (rule ins)
    show "ascending (insert_heap (heaps s) ib h)"
      by (rule a)
    show "\<forall>x \<in> set (insert_heap (heaps s) ib h). cnt (hd (insert_heap (heaps s) ib h)) \<le> cnt x"
      by (rule least)
    show "dispatch H s p =
      (if \<not> ok then (False, False, s)
       else if is_complete H h
       then (True, is_end_of_stream H h, s\<lparr>ready := ready s @ [h]\<rparr>)
       else if length (insert_heap (heaps s) ib h) > max_heaps s
       then (True, is_end_of_stream H h,
             s\<lparr>ready := ready s @ [hd (insert_heap (heaps s) ib h)],
               heaps := tl (insert_heap (heaps s) ib h)\<rparr>)
       else (True, is_end_of_stream H h, s\<lparr>heaps := insert_heap (heaps s) ib h\<rparr>))"
      by (rule d)
  qed
qed

theorem add_packet_new_heap_witness:
  "(\<forall>x. x \<in> set (heaps example_stream) = (x = partial_heap 1 \<or> x = partial_heap 3))
   \<and> cnt (partial_heap 1) \<noteq> 2 \<and> cnt (partial_heap 3) \<noteq> 2
   \<and> heap_add_packet (spec_heap_ops 2) (new_heap (spec_heap_ops 2) example_stream (half_packet 2 0))
         (half_packet 2 0) = (True, partial_heap 2)
   \<and> heap_ops_keep_cnt (spec_heap_ops 2)
   \<and> ascending (heaps example_stream)
   \<and> dispatch (spec_heap_ops 2) example_stream (half_packet 2 0) =
       (True, False,
        example_stream\<lparr>ready := [partial_heap 1], heaps := [partial_heap 2, partial_heap 3]\<rparr>)"
proof -
  have mem: "\<forall>x. x \<in> set (heaps example_stream) = (x = partial_heap 1 \<or> x = partial_heap 3)"
    by (auto simp: example_stream_def)
  have c: "cnt (partial_heap 1) = 1" "cnt (partial_heap 2) = 2" "cnt (partial_heap 3) = 3"
    by (simp_all add: heap_eval)
  have nomatch: "\<forall>x \<in> set (heaps example_stream). cnt x \<noteq> packet_header.heap_cnt (half_packet 2 0)"
    using c by (simp add: example_stream_def half_packet_def)
  have ap: "heap_add_packet (spec_heap_ops 2)
      (new_heap (spec_heap_ops 2) example_stream (half_packet 2 0)) (half_packet 2 0)
      = (True, partial_heap 2)"
    by (simp add: heap_eval stream_eval)
  have asc: "ascending (heaps example_stream)"
    using c by (simp add: ascending_def example_stream_def)
  have inc: "\<not> is_complete (spec_heap_ops 2) (partial_heap 2)"
    by (simp add: heap_eval)
  have eos: "\<not> is_end_of_stream (spec_heap_ops 2) (partial_heap 2)"
    by (simp add: heap_eval)
  from add_packet_new_heap [OF nomatch ap spec_heap_ops_keep_cnt asc] c inc eos
  have "dispatch (spec_heap_ops 2) example_stream (half_packet 2 0) =
       (True, False,
        example_stream\<lparr>ready := [partial_heap 1], heaps := [partial_heap 2, partial_heap 3]\<rparr>)"
    by (simp add: example_stream_def stream_base_new_def)
  with mem c ap asc spec_heap_ops_keep_cnt [of 2] show ?thesis
    by simp
qed

text \<open>
  The claim as stated has the heap inserted whenever it is not complete at once.  A new
  heap that rejects its first packet is not inserted: here the payload of the packet lies
  beyond the heap length, the call returns false and the stream is as before.
\<close>

theorem add_packet_new_heap_counterexample:
  "observe (Inr example_stream) = Some ([1, 3], [], False)
   \<and> add_packet (spec_heap_ops 2) example_stream (overflow_packet 2) = Inr (False, example_stream)"
  by (simp add: observe_def heap_eval stream_eval)

text \<open>
  Claim C4.  After every sequence of operations from a fresh stream the heap counts of the
  live heaps are strictly ascending, and so are those of the collection between the
  insertion of a new heap and the eviction that may follow; the member functions of the
  heap are assumed not to change its count.
\<close>

theorem live_heaps_strictly_ascending:
  assumes "heap_ops_keep_cnt H" "run H (stream_base_new bc n) ops = Inr s"
  shows "sorted_wrt (<) (map cnt (heaps s))
       \<and> (\<forall>p ib ok h. find_heap (heaps s) (packet_header.heap_cnt p) 0 0 = (None, ib)
                      \<and> heap_add_packet H (new_heap H s p) p = (ok, h)
                    \<longrightarrow> sorted_wrt (<) (map cnt (insert_heap (heaps s) ib h)))"
proof -
  have asc: "ascending (heaps s)"
    using run_ascending [OF assms(1) fresh_ascending assms(2)] .
  have "ascending (insert_heap (heaps s) ib h)"
    if "find_heap (heaps s) (packet_header.heap_cnt p) 0 0 = (None, ib)"
      and "heap_add_packet H (new_heap H s p) p = (ok, h)" for p ib ok h
    using ascending_insert_heap [OF asc that(1) new_heap_cnt [OF assms(1) that(2)]] .
  with asc show ?thesis
    unfolding ascending_def by blast
qed

theorem live_heaps_strictly_ascending_witness:
  "heap_ops_keep_cnt (spec_heap_ops 2)
   \<and> observe (run (spec_heap_ops 2) (stream_base_new 0 2) [Add_packet (half_packet 3 0), Add_packet (half_packet 1 0), Add_packet (half_packet 2 0)]) = Some ([2, 3], [1], False)
   \<and> (\<exists>s. run (spec_heap_ops 2) (stream_base_new 0 2) [Add_packet (half_packet 3 0), Add_packet (half_packet 1 0), Add_packet (half_packet 2 0)] = Inr s
          \<and> sorted_wrt (<) (map cnt (heaps s)))"
proof -
  let ?ops = "[Add_packet (half_packet 3 0), Add_packet (half_packet 1 0), Add_packet (half_packet 2 0)]"
  have obs: "observe (run (spec_heap_ops 2) (stream_base_new 0 2) ?ops) = Some ([2, 3], [1], False)"
    by (simp add: observe_def heap_eval stream_eval)
  from observe_Some [OF obs] obtain s
    where r: "run (spec_heap_ops 2) (stream_base_new 0 2) ?ops = Inr s"
    by blast
  from live_heaps_strictly_ascending [OF spec_heap_ops_keep_cnt r]
  have a: "sorted_wrt (<) (map cnt (heaps s))"
    by (rule conjunct1)
  from spec_heap_ops_keep_cnt [of 2] obs r a show ?thesis
    by (intro conjI exI [of _ s]) assumption+
qed

text \<open>
  Claim C5.  \<open>flush\<close> passes the live heaps to \<open>heap_ready\<close> in the order of the
  collection, each of them once, and empties the collection; in a stream reached from a
  fresh one that order is strictly ascending in the heap count.  \<open>stop\<close> is this flush with
  the stopped flag set, so the collection is empty after it, and a second \<open>stop\<close> changes
  nothing: no further heap is passed to \<open>heap_ready\<close>.
\<close>

theorem flush_and_stop:
  assumes "heap_ops_keep_cnt H" "run H (stream_base_new bc n) ops = Inr s"
  shows "ready (flush s) = ready s @ heaps s
       \<and> sorted_wrt (<) (map cnt (heaps s)) \<and> distinct (heaps s)
       \<and> flush s = s\<lparr>ready := ready s @ heaps s, heaps := []\<rparr>
       \<and> stop s = (flush s)\<lparr>stopped := True\<rparr>
       \<and> heaps (stop s) = [] \<and> stopped (stop s)
       \<and> stop (stop s) = stop s"
proof -
  have asc: "ascending (heaps s)"
    using run_ascending [OF assms(1) fresh_ascending assms(2)] .
  from ascending_distinct [OF asc] asc show ?thesis
    by (simp add: flush_eq stop_eq ascending_def)
qed

theorem flush_and_stop_witness:
  "heap_ops_keep_cnt (spec_heap_ops 2)
   \<and> observe (run (spec_heap_ops 2) (stream_base_new 0 2) [Add_packet (half_packet 3 0), Add_packet (half_packet 1 0), Add_packet (half_packet 2 0)]) = Some ([2, 3], [1], False)
   \<and> (\<exists>s. run (spec_heap_ops 2) (stream_base_new 0 2) [Add_packet (half_packet 3 0), Add_packet (half_packet 1 0), Add_packet (half_packet 2 0)] = Inr s
          \<and> map cnt (ready (flush s)) = [1, 2, 3]
          \<and> heaps (flush s) = []
          \<and> observe (Inr (stop s)) = Some ([], [1, 2, 3], True)
          \<and> stop (stop s) = stop s)"
proof -
  let ?ops = "[Add_packet (half_packet 3 0), Add_packet (half_packet 1 0), Add_packet (half_packet 2 0)]"
  have obs: "observe (run (spec_heap_ops 2) (stream_base_new 0 2) ?ops) = Some ([2, 3], [1], False)"
    by (simp add: observe_def heap_eval stream_eval)
  from observe_Some [OF obs] obtain s
    where r: "run (spec_heap_ops 2) (stream_base_new 0 2) ?ops = Inr s"
      and v: "map cnt (heaps s) = [2, 3]" "map cnt (ready s) = [1]"
    by auto
  note fs = flush_and_stop [OF spec_heap_ops_keep_cnt r]
  from fs have f1: "flush s = s\<lparr>ready := ready s @ heaps s, heaps := []\<rparr>"
    by (elim conjE) assumption
  from fs have f2: "stop s = (flush s)\<lparr>stopped := True\<rparr>"
    by (elim conjE) assumption
  from fs have f3: "stop (stop s) = stop s"
    by (elim conjE) assumption
  from f1 v have g1: "map cnt (ready (flush s)) = [1, 2, 3]"
    by simp
  from f1 have g2: "heaps (flush s) = []"
    by simp
  from f1 f2 v have g3: "observe (Inr (stop s)) = Some ([], [1, 2, 3], True)"
    by (simp add: observe_def)
  from spec_heap_ops_keep_cnt [of 2] obs r g1 g2 g3 f3 show ?thesis
    by (intro conjI exI [of _ s]) assumption+
qed

text \<open>
  Claim C6.  When the stream is running and the heap that \<open>add_packet\<close> delegates the
  packet to accepts it and then reports end-of-stream, \<open>add_packet\<close> returns true after
  calling \<open>stop\<close>: the stream is stopped, the collection is empty, and the heaps that were
  live after the dispatch have been passed to \<open>heap_ready\<close> in the order of the collection,
  which is ascending when the collection was ascending before the call.
\<close>

theorem add_packet_end_of_stream_stops:
  assumes "\<not> stopped s"
    and "heap_add_packet H (target_heap H s p) p = (True, h)"
    and "is_end_of_stream H h"
  shows "\<exists>s1. dispatch H s p = (True, True, s1)
            \<and> add_packet H s p = Inr (True, stop s1)
            \<and> stopped (stop s1) \<and> heaps (stop s1) = []
            \<and> ready (stop s1) = ready s1 @ heaps s1
            \<and> (heap_ops_keep_cnt H \<and> ascending (heaps s) \<longrightarrow> ascending (heaps s1))"
proof -
  obtain r e s1 where d: "dispatch H s p = (r, e, s1)"
    by (cases "dispatch H s p")
  with dispatch_target [OF assms(2)] assms(3) have re: "r = True" "e = True"
    by simp_all
  have "ascending (heaps s1)" if "heap_ops_keep_cnt H" "ascending (heaps s)"
    using dispatch_ascending [OF that d] .
  with d re assms(1) show ?thesis
    by (auto simp: add_packet_def stop_eq)
qed

theorem add_packet_end_of_stream_stops_witness:
  "\<not> stopped example_stream
   \<and> fst (heap_add_packet (spec_heap_ops 2)
            (target_heap (spec_heap_ops 2) example_stream (stop_packet 2)) (stop_packet 2))
   \<and> is_end_of_stream (spec_heap_ops 2)
        (snd (heap_add_packet (spec_heap_ops 2)
                (target_heap (spec_heap_ops 2) example_stream (stop_packet 2)) (stop_packet 2)))
   \<and> observe (step (spec_heap_ops 2) example_stream (Add_packet (stop_packet 2)))
       = Some ([], [1, 2, 3], True)
   \<and> (\<exists>s1. add_packet (spec_heap_ops 2) example_stream (stop_packet 2) = Inr (True, stop s1)
           \<and> stopped (stop s1) \<and> heaps (stop s1) = [])"
proof -
  let ?H = "spec_heap_ops 2"
  let ?r = "heap_add_packet ?H (target_heap ?H example_stream (stop_packet 2)) (stop_packet 2)"
  have running: "\<not> stopped example_stream"
    by (simp add: example_stream_def stream_base_new_def)
  have t: "target_heap ?H example_stream (stop_packet 2)
      = spec_heap_set_mempool (spec_heap_new 2 0) None"
    by (simp add: target_heap_def heap_eval stream_eval)
  have ok: "fst ?r"
    unfolding t by (simp add: heap_eval)
  have eos: "is_end_of_stream ?H (snd ?r)"
    unfolding t by (simp add: heap_eval)
  from ok have ap: "?r = (True, snd ?r)"
    by (cases ?r) simp
  have obs: "observe (step ?H example_stream (Add_packet (stop_packet 2)))
      = Some ([], [1, 2, 3], True)"
    by (simp add: observe_def heap_eval stream_eval)
  from add_packet_end_of_stream_stops [OF running ap eos]
  obtain s1 where s1: "add_packet ?H example_stream (stop_packet 2) = Inr (True, stop s1)"
      "stopped (stop s1)" "heaps (stop s1) = []"
    by (elim exE conjE)
  from running ok eos obs s1 show ?thesis
    by (intro conjI exI [of _ s1]) assumption+
qed

text \<open>
  Claim C10.  When \<open>add_packet\<close> returns false the stream is as it was before the call: the
  live heaps, the stopped flag, the cap, the pool and the record of calls to \<open>heap_ready\<close>
  are unchanged; a heap is assumed to be unchanged by a packet that it rejects.
\<close>

theorem add_packet_rejection_atomic:
  assumes "heap_ops_reject_unchanged H" "add_packet H s p = Inr (False, s')"
  shows "s' = s"
proof -
  obtain r0 e s1 where d: "dispatch H s p = (r0, e, s1)"
    by (cases "dispatch H s p")
  with assms(2) have "r0 = False"
    by (auto simp: add_packet_def split: if_splits)
  with d dispatch_rejected [OF assms(1), of s p e s1] have "e = False" "s1 = s"
    by simp_all
  with assms(2) d show ?thesis
    by (auto simp: add_packet_def split: if_splits)
qed

theorem add_packet_rejection_atomic_witness:
  "heap_ops_reject_unchanged (spec_heap_ops 2)
   \<and> observe (Inr example_stream) = Some ([1, 3], [], False)
   \<and> add_packet (spec_heap_ops 2) example_stream (overflow_packet 1) = Inr (False, example_stream)"
proof -
  let ?H = "spec_heap_ops 2"
  have obs: "observe (Inr example_stream) = Some ([1, 3], [], False)"
    by (simp add: observe_def heap_eval stream_base_new_def)
  have "map_sum id fst (add_packet ?H example_stream (overflow_packet 1)) = Inr False"
    by (simp add: heap_eval stream_eval)
  then obtain s' where r: "add_packet ?H example_stream (overflow_packet 1) = Inr (False, s')"
    by (cases "add_packet ?H example_stream (overflow_packet 1)") auto
  from add_packet_rejection_atomic [OF spec_heap_ops_reject_unchanged r]
  have "s' = example_stream" .
  with r obs spec_heap_ops_reject_unchanged [of 2] show ?thesis
    by simp
qed

text \<open>
  Claim C9 (amended).  For a decoder that never returns a size beyond the end of the
  buffer, \<open>mem_to_stream\<close> decodes the packets from the front and passes each of them to
  \<open>add_packet\<close>, whatever \<open>add_packet\<close> returned for the ones before, until \<open>decode_packet\<close>
  fails, the buffer ends or the stream is stopped; it returns the offset just past the last
  packet passed.  When the stream is not stopped on return, that is the offset of the first
  decode failure.
\<close>

theorem mem_to_stream_feeds_packets:
  assumes "\<forall>bs. fst (decode_packet bs) \<le> length bs"
  shows "mem_to_stream H decode_packet s bs = Inr (feed H s (packets_of decode_packet bs))
       \<and> (\<not> stopped (snd (feed H s (packets_of decode_packet bs))) \<longrightarrow>
            fst (feed H s (packets_of decode_packet bs)) = first_failure decode_packet bs)"
  using mem_to_stream_loop_feed [OF assms, of H s 0 bs]
    feed_running [of H s "packets_of decode_packet bs"]
  by (simp add: mem_to_stream_def first_failure_def)

theorem mem_to_stream_feeds_packets_witness:
  "(\<forall>bs. fst (spec_decode_packet bs) \<le> length bs)
   \<and> packets_of spec_decode_packet (data_packet_bytes @ data_packet_bytes @ [0])
       = [(33, data_header), (33, data_header)]
   \<and> returned (mem_to_stream (spec_heap_ops 2) spec_decode_packet (stream_base_new 0 4)
         (data_packet_bytes @ data_packet_bytes @ [0])) = Some (66, [2], [], False)
   \<and> first_failure spec_decode_packet (data_packet_bytes @ data_packet_bytes @ [0]) = 66"
proof -
  let ?H = "spec_heap_ops 2"
  let ?bs = "data_packet_bytes @ data_packet_bytes @ [0]"
  have contract: "\<forall>bs. fst (spec_decode_packet bs) \<le> length bs"
    by (simp add: spec_decode_packet_size)
  have fed: "returned (Inr (feed ?H (stream_base_new 0 4) [(33, data_header), (33, data_header)]))
      = Some (66, [2], [], False)"
    by (simp add: returned_def data_header_def heap_eval stream_eval)
  from mem_to_stream_feeds_packets [OF contract, of ?H "stream_base_new 0 4" ?bs]
  have "mem_to_stream ?H spec_decode_packet (stream_base_new 0 4) ?bs
      = Inr (feed ?H (stream_base_new 0 4) (packets_of spec_decode_packet ?bs))"
    by simp
  with fed have "returned (mem_to_stream ?H spec_decode_packet (stream_base_new 0 4) ?bs)
      = Some (66, [2], [], False)"
    by (simp add: packets_of_repeated)
  moreover have "first_failure spec_decode_packet ?bs = 66"
    by (simp add: first_failure_def packets_of_repeated)
  ultimately show ?thesis
    using contract packets_of_repeated by simp
qed

text \<open>
  The claim as stated has the scan run up to the first decode failure.  In this buffer the
  first packet carries the end-of-stream marker: the stream is stopped when \<open>add_packet\<close>
  returns, the second packet is never decoded or passed to \<open>add_packet\<close>, and the offset
  returned is 40, where no decode failure occurs; the first one is at offset 73.
\<close>

theorem mem_to_stream_counterexample:
  "packets_of spec_decode_packet example_buffer = [(40, stop_header), (33, data_header)]
   \<and> first_failure spec_decode_packet example_buffer = 73
   \<and> returned (mem_to_stream (spec_heap_ops 2) spec_decode_packet (stream_base_new 0 4)
         example_buffer) = Some (40, [], [1], True)"
proof -
  let ?H = "spec_heap_ops 2"
  have "mem_to_stream ?H spec_decode_packet (stream_base_new 0 4) example_buffer
      = Inr (feed ?H (stream_base_new 0 4) (packets_of spec_decode_packet example_buffer))"
    using mem_to_stream_loop_feed [of spec_decode_packet ?H "stream_base_new 0 4" 0 example_buffer]
    by (simp add: mem_to_stream_def spec_decode_packet_size)
  moreover have "returned (Inr (feed ?H (stream_base_new 0 4) [(40, stop_header), (33, data_header)]))
      = Some (40, [], [1], True)"
    by (simp add: returned_def stop_header_def data_header_def heap_eval stream_eval)
  ultimately show ?thesis
    by (simp add: packets_of_example_buffer first_failure_def)
qed


end
